theory Spec2Isabelle
  imports Main "HOL-Library.Word"
begin

section \<open>Machine types and constants of file.h\<close>

text \<open>
  The class \<open>File\<close> of file.h/file.cc is embedded for an LP64 target: \<open>size_t\<close>,
  \<open>ssize_t\<close> and \<open>off_t\<close> are 64-bit words, \<open>int\<close> is a 32-bit word and \<open>char\<close>
  is a signed 8-bit byte.  A comparison \<open>x < 0\<close> on a \<open>size_t\<close> is always false; where
  the source makes such a test, the embedding says so and has no branch for it.
\<close>

type_synonym byte = "8 word"
type_synonym size_t = "64 word"
type_synonym cint = "32 word"

definition bufsiz :: nat where
  "bufsiz = 8192"

definition eof :: cint where
  "eof = - 1"

text \<open>\<open>return eof\<close> from a function whose result type is \<open>size_t\<close>.\<close>

definition eof_size :: size_t where
  "eof_size = scast eof"

datatype Whence = seek_set | seek_cur | seek_end

text \<open>
  What a call cannot return normally: undefined behaviour of the C++ program (an access
  outside an array, signed overflow, a read of an indeterminate value) and the
  exceptions thrown by file.cc, named by their message.
\<close>

datatype error = Undefined | Throw string

section \<open>The file descriptor\<close>

text \<open>
  The descriptor layer (\<open>read\<close>, \<open>write\<close>, \<open>lseek\<close> of unistd.h) on one regular file:
  its bytes, the offset of the open descriptor, and for each kind of call a schedule
  of injected outcomes.  The head of a schedule decides the next call of that kind;
  an exhausted schedule means the call behaves normally.
\<close>

datatype sysres = Full | Partial nat | Err

record os =
  fdata :: "byte list"
  fpos :: nat
  rsched :: "sysres list"
  wsched :: "sysres list"
  ssched :: "bool list"

definition next_res :: "sysres list \<Rightarrow> sysres" where
  "next_res sch = (case sch of [] \<Rightarrow> Full | r # _ \<Rightarrow> r)"

definition granted :: "sysres \<Rightarrow> nat \<Rightarrow> nat" where
  "granted r n = (case r of Full \<Rightarrow> n | Partial k \<Rightarrow> min k n | Err \<Rightarrow> 0)"

text \<open>\<open>read(fd, p, count)\<close>: the new descriptor, the \<open>ssize_t\<close> result and the bytes stored at \<open>p\<close>.\<close>

definition sys_read :: "os \<Rightarrow> nat \<Rightarrow> os \<times> size_t \<times> byte list" where
  "sys_read d count =
     (let r = next_res (rsched d);
          d1 = d\<lparr>rsched := tl (rsched d)\<rparr>
      in if r = Err then (d1, - 1, [])
         else let bs = take (granted r count) (drop (fpos d) (fdata d))
              in (d1\<lparr>fpos := fpos d + length bs\<rparr>, of_nat (length bs), bs))"

text \<open>
  The file after \<open>bs\<close> was stored at offset \<open>pos\<close>.  Storing past the end fills the gap
  with zeros; storing no byte changes nothing, wherever the offset is.
\<close>

definition put_bytes :: "byte list \<Rightarrow> nat \<Rightarrow> byte list \<Rightarrow> byte list" where
  "put_bytes old pos bs =
     (if bs = [] then old
      else take pos (old @ replicate (pos - length old) 0) @ bs @ drop (pos + length bs) old)"

text \<open>\<open>write(fd, p, count)\<close> with the \<open>count\<close> bytes found at \<open>p\<close>.\<close>

definition sys_write :: "os \<Rightarrow> byte list \<Rightarrow> os \<times> size_t" where
  "sys_write d src =
     (let r = next_res (wsched d);
          d1 = d\<lparr>wsched := tl (wsched d)\<rparr>
      in if r = Err then (d1, - 1)
         else let bs = take (granted r (length src)) src
              in (d1\<lparr>fdata := put_bytes (fdata d) (fpos d) bs, fpos := fpos d + length bs\<rparr>,
                  of_nat (length bs)))"

text \<open>\<open>lseek(fd, offset, whence)\<close>; it fails when scheduled to, or when the target is no valid offset.\<close>

definition sys_lseek :: "os \<Rightarrow> int \<Rightarrow> Whence \<Rightarrow> os \<times> size_t" where
  "sys_lseek d off wh =
     (let fails = (case ssched d of [] \<Rightarrow> False | b # _ \<Rightarrow> b);
          d1 = d\<lparr>ssched := tl (ssched d)\<rparr>;
          base = (case wh of seek_set \<Rightarrow> 0 | seek_cur \<Rightarrow> int (fpos d)
                  | seek_end \<Rightarrow> int (length (fdata d)));
          target = base + off
      in if fails \<or> target < 0 \<or> 2 ^ 63 \<le> target then (d1, - 1)
         else (d1\<lparr>fpos := nat target\<rparr>, word_of_int target))"

section \<open>The class File\<close>

text \<open>
  The private members of \<open>File\<close>.  \<open>fd\<close> is the descriptor value of type \<open>os\<close> that
  every operation takes and returns; \<open>bmode\<close> is never read.  The member \<open>end\<close> is
  called \<open>endf\<close>.
\<close>

record File =
  buf :: "byte list"
  bufAt :: size_t
  bufEnd :: size_t
  fmode :: char
  lastAct :: char
  err :: cint
  endf :: bool

text \<open>
  The constructor.  \<open>mode\<close> is the mode string before its NUL, \<open>mem\<close> the block
  returned by \<open>malloc(bufsiz)\<close>, and \<open>opens\<close> tells whether \<open>open\<close> yields a
  descriptor.  A mode string matching none of the three tests (the empty one among
  them) leaves \<open>fd\<close> and \<open>fmode\<close> indeterminate, and \<open>fd < 0\<close> then reads \<open>fd\<close>.
\<close>

definition File_ctor :: "byte list \<Rightarrow> bool \<Rightarrow> string \<Rightarrow> error + File" where
  "File_ctor mem opens mode =
     (let fresh = (\<lambda>m. if opens
                 then Inr \<lparr>buf = mem, bufAt = 0, bufEnd = 0, fmode = m,
                          lastAct = CHR ''0'', err = 0, endf = False\<rparr>
                 else Inl (Throw ''Open failure''))
      in case mode of
           [] \<Rightarrow> Inl Undefined
         | m0 # rest \<Rightarrow>
             if m0 = CHR ''r'' \<and> rest = [] then fresh CHR ''r''
             else if m0 = CHR ''w'' \<and> rest = [] then fresh CHR ''w''
             else if (m0 = CHR ''r'' \<or> m0 = CHR ''w'') \<and> take 1 rest = ''+'' then fresh CHR ''+''
             else Inl Undefined)"

definition ferror :: "File \<Rightarrow> cint" where
  "ferror f = err f"

definition feof :: "File \<Rightarrow> bool" where
  "feof f = endf f"

text \<open>The three assignments that end \<open>fflush\<close>.\<close>

definition emptied :: "File \<Rightarrow> File" where
  "emptied f = f\<lparr>bufAt := 0, bufEnd := 0, lastAct := CHR ''0''\<rparr>"

text \<open>
  \<open>fflush\<close>.  \<open>write(fd, buf, bufAt)\<close> reads \<open>bufAt\<close> bytes of the buffer, which is
  defined only while \<open>bufAt\<close> does not exceed its size.  The offset of the relative
  seek is the \<open>size_t\<close> difference read as an \<open>off_t\<close>.
\<close>

definition fflush :: "File \<Rightarrow> os \<Rightarrow> error + (File \<times> os \<times> cint)" where
  "fflush f d =
     (if lastAct f = CHR ''w'' then
        (if length (buf f) < unat (bufAt f) then Inl Undefined
         else let (d1, r) = sys_write d (take (unat (bufAt f)) (buf f))
              in if sint r < 0 then Inr (f, d1, eof)
                 else Inr (emptied f, d1, 0))
      else if lastAct f = CHR ''r'' then
        (let (d1, r) = sys_lseek d (sint (bufAt f - bufEnd f)) seek_cur
         in if r = - 1 then Inr (f\<lparr>err := - 4\<rparr>, d1, eof)
            else Inr (emptied f, d1, 0))
      else Inr (emptied f, d, 0))"

text \<open>
  The copy loop that ends \<open>fwrite\<close>:
  \<open>for (; bytes_written < size * nmemb; bytes_written++) buf[bufAt++] = ptr[bytes_written]\<close>.
\<close>

function fwrite_loop :: "File \<Rightarrow> byte list \<Rightarrow> size_t \<Rightarrow> size_t \<Rightarrow> error + (File \<times> size_t)" where
  "fwrite_loop f src n bw =
     (if bw < n then
        (if unat (bufAt f) < length (buf f) \<and> unat bw < length src then
           fwrite_loop (f\<lparr>buf := (buf f)[unat (bufAt f) := src ! unat bw],
                          bufAt := bufAt f + 1\<rparr>) src n (bw + 1)
         else Inl Undefined)
      else Inr (f, bw))"
  by pat_completeness auto
termination
proof (relation "measure (\<lambda>(f, src, n, bw). unat n - unat bw)")
  show "wf (measure (\<lambda>(f, src, n, bw). unat n - unat bw))"
    by simp
next
  fix f :: File and src :: "byte list" and n bw :: size_t
  assume "bw < n"
  then have "unat (bw + 1) = Suc (unat bw)"
    by unat_arith
  with \<open>bw < n\<close> show "((f\<lparr>buf := (buf f)[unat (bufAt f) := src ! unat bw],
                          bufAt := bufAt f + 1\<rparr>, src, n, bw + 1), (f, src, n, bw))
        \<in> measure (\<lambda>(f, src, n, bw). unat n - unat bw)"
    by (simp add: word_less_nat_alt)
qed

text \<open>
  \<open>fwrite\<close>; \<open>src\<close> is the array at \<open>ptr\<close>.  \<open>bytes_written\<close> is a \<open>size_t\<close>, so the test
  \<open>bytes_written < 0\<close> after the direct \<open>write\<close> never holds and its branch
  (\<open>err = -1; return eof\<close>) is not taken.
\<close>

definition fwrite :: "File \<Rightarrow> os \<Rightarrow> byte list \<Rightarrow> size_t \<Rightarrow> size_t \<Rightarrow> error + (File \<times> os \<times> size_t)" where
  "fwrite f d src sz nmemb =
     (if fmode f = CHR ''r'' then Inr (f, d, eof_size)
      else
        case (if lastAct f = CHR ''r'' then fflush f d else Inr (f, d, 0)) of
          Inl e \<Rightarrow> Inl e
        | Inr (f1, d1, r1) \<Rightarrow>
            if r1 \<noteq> 0 then Inr (f1, d1, eof_size)
            else
              let f2 = f1\<lparr>lastAct := CHR ''w''\<rparr>;
                  n = sz * nmemb;
                  copy = (\<lambda>g e bw. if bw = 0
                            then (case fwrite_loop g src n bw of
                                    Inl x \<Rightarrow> Inl x
                                  | Inr (g1, bw1) \<Rightarrow> Inr (g1, e, bw1))
                            else Inr (g, e, bw))
              in if of_nat bufsiz < bufAt f2 + n then
                   (case fflush f2 d1 of
                      Inl e \<Rightarrow> Inl e
                    | Inr (f3, d3, r3) \<Rightarrow>
                        if r3 \<noteq> 0 then Inr (f3, d3, eof_size)
                        else if of_nat bufsiz < n then
                          (if length src < unat n then Inl Undefined
                           else let (d4, bw) = sys_write d3 (take (unat n) src)
                                in copy f3 d4 bw)
                        else copy f3 d3 0)
                 else copy f2 d1 0)"

section \<open>The read path\<close>

text \<open>
  Several blocks of \<open>fread\<close> end in a \<open>return\<close>; a block therefore yields either the
  values the call returns or the values the next block goes on with.
\<close>

datatype ('r, 'c) flow = Returned 'r | Goes_on 'c

text \<open>The loop of line 99: \<open>while (bufAt < bufEnd) ptr[ptrAt++] = buf[bufAt++]\<close>.\<close>

function fread_drain :: "File \<Rightarrow> byte list \<Rightarrow> size_t \<Rightarrow> error + (File \<times> byte list \<times> size_t)" where
  "fread_drain f dst ptrAt =
     (if bufAt f < bufEnd f then
        (if unat (bufAt f) < length (buf f) \<and> unat ptrAt < length dst then
           fread_drain (f\<lparr>bufAt := bufAt f + 1\<rparr>)
             (dst[unat ptrAt := buf f ! unat (bufAt f)]) (ptrAt + 1)
         else Inl Undefined)
      else Inr (f, dst, ptrAt))"
  by pat_completeness auto
termination
proof (relation "measure (\<lambda>(f, dst, ptrAt). unat (bufEnd f) - unat (bufAt f))")
  show "wf (measure (\<lambda>(f, dst, ptrAt). unat (bufEnd f) - unat (bufAt f)))"
    by simp
next
  fix f :: File and dst :: "byte list" and ptrAt :: size_t
  assume less: "bufAt f < bufEnd f"
  then have "unat (bufAt f + 1) = Suc (unat (bufAt f))"
    by unat_arith
  with less show "((f\<lparr>bufAt := bufAt f + 1\<rparr>, dst[unat ptrAt := buf f ! unat (bufAt f)], ptrAt + 1),
                   (f, dst, ptrAt))
        \<in> measure (\<lambda>(f, dst, ptrAt). unat (bufEnd f) - unat (bufAt f))"
    by (simp add: word_less_nat_alt)
qed

text \<open>Lines 96 to 106: the rest of the buffer is handed out when the request reaches past it.\<close>

definition fread_pending ::
  "File \<Rightarrow> os \<Rightarrow> byte list \<Rightarrow> size_t
     \<Rightarrow> error + (File \<times> os \<times> byte list \<times> size_t, File \<times> os \<times> byte list \<times> size_t) flow" where
  "fread_pending f d dst n =
     (if lastAct f = CHR ''r'' \<and> bufEnd f < bufAt f + n then
        (case fread_drain f dst 0 of
           Inl e \<Rightarrow> Inl e
         | Inr (f1, dst1, ptrAt) \<Rightarrow>
             (case fflush f1 d of
                Inl e \<Rightarrow> Inl e
              | Inr (f2, d2, r) \<Rightarrow>
                  if r \<noteq> 0
                  then Inr (Returned (f2\<lparr>bufAt := bufAt f2 - ptrAt\<rparr>, d2, dst1, eof_size))
                  else Inr (Goes_on (f2, d2, dst1, ptrAt))))
      else Inr (Goes_on (f, d, dst, 0)))"

text \<open>
  Lines 107 to 129.  \<open>bytes_read\<close> and \<open>bufEnd\<close> are \<open>size_t\<close>: the tests
  \<open>bytes_read < 0\<close> and \<open>bufEnd < 0\<close> never hold, so neither \<open>err = -3\<close> nor \<open>err = -2\<close>
  is ever assigned, and a failed \<open>read\<close> leaves \<open>2^64 - 1\<close> in the variable.  The direct
  \<open>read\<close> asks for \<open>nmemb * size\<close> bytes and stores them from \<open>ptr + ptrAt\<close> on.
\<close>

definition fread_fetch ::
  "File \<Rightarrow> os \<Rightarrow> byte list \<Rightarrow> size_t \<Rightarrow> size_t
     \<Rightarrow> error + (File \<times> os \<times> byte list \<times> size_t, File \<times> os \<times> byte list) flow" where
  "fread_fetch f d dst n ptrAt =
     (if lastAct f = CHR ''0'' then
        (if of_nat bufsiz < n - ptrAt then
           (let (d1, bytes_read, bs) = sys_read d (unat n)
            in if length dst < unat ptrAt + length bs then Inl Undefined
               else
                 let dst1 = take (unat ptrAt) dst @ bs @ drop (unat ptrAt + length bs) dst;
                     f1 = (if bytes_read < n - ptrAt then f\<lparr>endf := True\<rparr> else f)
                 in Inr (Returned (f1, d1, dst1, bytes_read + ptrAt)))
         else
           (let (d1, r, bs) = sys_read d bufsiz
            in if length (buf f) < length bs then Inl Undefined
               else
                 let f1 = f\<lparr>buf := bs @ drop (length bs) (buf f), bufEnd := r\<rparr>
                 in if bufEnd f1 = 0 then Inr (Returned (f1\<lparr>endf := True\<rparr>, d1, dst, ptrAt))
                    else Inr (Goes_on (f1, d1, dst))))
      else Inr (Goes_on (f, d, dst)))"

text \<open>The loop of lines 132 to 138.\<close>

function fread_copy :: "File \<Rightarrow> byte list \<Rightarrow> size_t \<Rightarrow> size_t \<Rightarrow> error + (File \<times> byte list \<times> size_t)" where
  "fread_copy f dst n ptrAt =
     (if ptrAt < n then
        (if bufAt f = bufEnd f \<and> bufEnd f < of_nat bufsiz then Inr (f\<lparr>endf := True\<rparr>, dst, ptrAt)
         else if unat (bufAt f) < length (buf f) \<and> unat ptrAt < length dst then
           fread_copy (f\<lparr>bufAt := bufAt f + 1\<rparr>)
             (dst[unat ptrAt := buf f ! unat (bufAt f)]) n (ptrAt + 1)
         else Inl Undefined)
      else Inr (f, dst, ptrAt))"
  by pat_completeness auto
termination
proof (relation "measure (\<lambda>(f, dst, n, ptrAt). unat n - unat ptrAt)")
  show "wf (measure (\<lambda>(f, dst, n, ptrAt). unat n - unat ptrAt))"
    by simp
next
  fix f :: File and dst :: "byte list" and n ptrAt :: size_t
  assume less: "ptrAt < n"
  then have "unat (ptrAt + 1) = Suc (unat ptrAt)"
    by unat_arith
  with less show "((f\<lparr>bufAt := bufAt f + 1\<rparr>, dst[unat ptrAt := buf f ! unat (bufAt f)], n, ptrAt + 1),
                   (f, dst, n, ptrAt))
        \<in> measure (\<lambda>(f, dst, n, ptrAt). unat n - unat ptrAt)"
    by (simp add: word_less_nat_alt)
qed

text \<open>\<open>fread\<close>; \<open>dst\<close> is the array at \<open>ptr\<close>, returned as the call leaves it.\<close>

definition fread ::
  "File \<Rightarrow> os \<Rightarrow> byte list \<Rightarrow> size_t \<Rightarrow> size_t \<Rightarrow> error + (File \<times> os \<times> byte list \<times> size_t)" where
  "fread f d dst sz nmemb =
     (if fmode f = CHR ''w'' then Inr (f, d, dst, eof_size)
      else
        case (if lastAct f = CHR ''w'' then fflush f d else Inr (f, d, 0)) of
          Inl e \<Rightarrow> Inl e
        | Inr (f1, d1, r1) \<Rightarrow>
            if r1 \<noteq> 0 then Inr (f1, d1, dst, eof_size)
            else
              (case fread_pending f1 d1 dst (sz * nmemb) of
                 Inl e \<Rightarrow> Inl e
               | Inr (Returned res) \<Rightarrow> Inr res
               | Inr (Goes_on (f2, d2, dst2, ptrAt)) \<Rightarrow>
                   (case fread_fetch f2 d2 dst2 (sz * nmemb) ptrAt of
                      Inl e \<Rightarrow> Inl e
                    | Inr (Returned res) \<Rightarrow> Inr res
                    | Inr (Goes_on (f3, d3, dst3)) \<Rightarrow>
                        (case fread_copy (f3\<lparr>lastAct := CHR ''r''\<rparr>) dst3 (sz * nmemb) ptrAt of
                           Inl e \<Rightarrow> Inl e
                         | Inr (f4, dst4, ptrAt4) \<Rightarrow> Inr (f4, d3, dst4, ptrAt4)))))"

text \<open>
  \<open>fgetc\<close>: \<open>temp\<close> starts as one NUL byte.  The result of \<open>fread\<close> is a \<open>size_t\<close>, so
  \<open>fread(temp, 1, 1) < 0\<close> never holds and \<open>return eof\<close> is not reached; the call
  returns \<open>(int)(*temp)\<close>, the signed byte widened.
\<close>

definition fgetc :: "File \<Rightarrow> os \<Rightarrow> error + (File \<times> os \<times> cint)" where
  "fgetc f d =
     (case fread f d [0] 1 1 of
        Inl e \<Rightarrow> Inl e
      | Inr (f1, d1, temp, r) \<Rightarrow>
          (case temp of [] \<Rightarrow> Inl Undefined | c # _ \<Rightarrow> Inr (f1, d1, scast c)))"

text \<open>
  The loop of \<open>fgets\<close>.  \<open>s\<close> is the caller's array, the final flag tells whether the
  call returns \<open>s\<close> (True) or \<open>NULL\<close> (False).  \<open>i\<close> and \<open>size\<close> are \<open>int\<close>s with
  \<open>i < size\<close>, so \<open>i++\<close> cannot overflow; \<open>overflow++\<close> and \<open>overflow * bufsiz\<close> can,
  which is undefined.  In the seek offset \<open>file_offset\<close> and the product are converted
  to \<open>size_t\<close>, and the difference to \<open>off_t\<close>.
\<close>

function fgets_loop ::
  "int \<Rightarrow> File \<Rightarrow> os \<Rightarrow> byte list \<Rightarrow> int \<Rightarrow> int \<Rightarrow> nat \<Rightarrow> int
     \<Rightarrow> error + (File \<times> os \<times> byte list \<times> bool)" where
  "fgets_loop file_offset f d s sz i sAt overflow =
     (if i < sz then
        (case fgetc f d of
           Inl e \<Rightarrow> Inl e
         | Inr (f1, d1, temp) \<Rightarrow>
             let overflow1 = (if bufAt f1 = bufEnd f1 then overflow + 1 else overflow)
             in if 2 ^ 31 \<le> overflow1 then Inl Undefined
                else if temp = eof then
                  (if \<not> feof f1 then
                     (let f2 = f1\<lparr>bufAt := 0, bufEnd := 0, lastAct := CHR ''0''\<rparr>
                      in if 2 ^ 31 \<le> overflow1 * int bufsiz then Inl Undefined
                         else
                           let (d2, r) = sys_lseek d1
                                  (sint (word_of_int file_offset - bufEnd f2
                                           - word_of_int (overflow1 * int bufsiz) :: size_t))
                                  seek_cur
                           in if r = - 1 then Inl (Throw ''Reposition failure'')
                              else Inr (f2, d2, s, False))
                   else Inr (f1, d1, s, True))
                else if sAt < length s then
                  (let s1 = s[sAt := ucast temp]
                   in if temp = 10 then Inr (f1, d1, s1, True)
                      else fgets_loop file_offset f1 d1 s1 sz (i + 1) (Suc sAt) overflow1)
                else Inl Undefined)
      else Inr (f, d, s, True))"
  by pat_completeness auto
termination
  by (relation "measure (\<lambda>(file_offset, f, d, s, sz, i, sAt, overflow). nat (sz - i))") auto

text \<open>\<open>fgets\<close>; \<open>int file_offset = this->bufAt\<close> keeps the low 32 bits.\<close>

definition fgets :: "File \<Rightarrow> os \<Rightarrow> byte list \<Rightarrow> int \<Rightarrow> error + (File \<times> os \<times> byte list \<times> bool)" where
  "fgets f d s sz =
     (if fmode f = CHR ''w'' then Inr (f, d, s, False)
      else
        case (if lastAct f = CHR ''w'' then fflush f d else Inr (f, d, 0)) of
          Inl e \<Rightarrow> Inl e
        | Inr (f1, d1, r1) \<Rightarrow>
            if r1 \<noteq> 0 then Inr (f1, d1, s, False)
            else fgets_loop (sint (ucast (bufAt f1) :: cint)) f1 d1 s sz 0 0
                   (if bufAt f1 = bufEnd f1 then 1 else 0))"

section \<open>The write path, continued\<close>

text \<open>
  \<open>fputc\<close>: \<open>a\<close> holds \<open>(char)c\<close>.  The result of \<open>fwrite\<close> is a \<open>size_t\<close>, so the test
  \<open>< 0\<close> never holds and the call returns \<open>c\<close> whatever \<open>fwrite\<close> did.
\<close>

definition fputc :: "File \<Rightarrow> os \<Rightarrow> cint \<Rightarrow> error + (File \<times> os \<times> cint)" where
  "fputc f d c =
     (case fwrite f d [ucast c] 1 1 of
        Inl e \<Rightarrow> Inl e
      | Inr (f1, d1, r) \<Rightarrow> Inr (f1, d1, c))"

text \<open>
  \<open>fputs\<close>; \<open>str\<close> is the array at the argument, which has to hold a NUL for the
  length loop to stay inside it.  The \<open>size_t\<close> result of \<open>fwrite\<close> is returned as \<open>int\<close>.
\<close>

definition fputs :: "File \<Rightarrow> os \<Rightarrow> byte list \<Rightarrow> error + (File \<times> os \<times> cint)" where
  "fputs f d str =
     (if fmode f = CHR ''r'' then Inr (f, d, - 1)
      else if 0 \<notin> set str \<or> 2 ^ 31 \<le> length (takeWhile (\<lambda>c. c \<noteq> 0) str) then Inl Undefined
      else
        case fwrite f d str 1 (of_nat (length (takeWhile (\<lambda>c. c \<noteq> 0) str))) of
          Inl e \<Rightarrow> Inl e
        | Inr (f1, d1, r) \<Rightarrow> Inr (f1, d1, ucast r))"

text \<open>
  \<open>fseek\<close>: the result of \<open>fflush\<close> is dropped.  \<open>Whence\<close> has its three values only, so
  the branch \<open>return -2\<close> has no counterpart.
\<close>

definition fseek :: "File \<Rightarrow> os \<Rightarrow> size_t \<Rightarrow> Whence \<Rightarrow> error + (File \<times> os \<times> cint)" where
  "fseek f d offset whence =
     (case fflush f d of
        Inl e \<Rightarrow> Inl e
      | Inr (f1, d1, r1) \<Rightarrow>
          let (d2, r) = sys_lseek d1 (sint offset) whence
          in if r = - 1 then Inr (f1, d2, - 1)
             else Inr (f1\<lparr>endf := False\<rparr>, d2, 0))"

section \<open>Formatted output\<close>

text \<open>The digit loop of \<open>itoa\<close>: \<open>for (; i > 0; i = i / 10) *--p = '0' + (i % 10)\<close>.\<close>

function itoa_loop :: "int \<Rightarrow> byte list \<Rightarrow> byte list" where
  "itoa_loop i p = (if 0 < i then itoa_loop (i div 10) (of_int (48 + i mod 10) # p) else p)"
  by pat_completeness auto
termination
  by (relation "measure (\<lambda>(i, p). nat i)") auto

text \<open>
  \<open>itoa\<close>; the result is the string at the returned pointer, without its NUL.  At most
  eleven characters are stored before the NUL, so the 32 bytes of \<open>a\<close> suffice.
  \<open>i = -i\<close> overflows for the least \<open>int\<close>, which is undefined.
\<close>

definition itoa :: "cint \<Rightarrow> error + byte list" where
  "itoa i =
     (if i = 0 then Inr [48]
      else if sint i < 0 then
        (if - sint i < 2 ^ 31 then Inr (45 # itoa_loop (- sint i) []) else Inl Undefined)
      else Inr (itoa_loop (sint i) []))"

datatype arg = Int_arg cint | Str_arg "byte list"

text \<open>
  The loop shared by \<open>%s\<close> and \<open>%d\<close>:
  \<open>for (; *s != '\0'; s++) { if (fputc(*s) < 0) return -1; n++; }\<close>.
  \<open>*s\<close> is a signed \<open>char\<close> and \<open>fputc\<close> returns its argument.
\<close>

fun fprintf_chars ::
  "File \<Rightarrow> os \<Rightarrow> byte list \<Rightarrow> cint \<Rightarrow> error + (File \<times> os \<times> cint, File \<times> os \<times> cint) flow" where
  "fprintf_chars f d [] n = Inr (Goes_on (f, d, n))"
| "fprintf_chars f d (c # cs) n =
     (case fputc f d (scast c) of
        Inl e \<Rightarrow> Inl e
      | Inr (f1, d1, r) \<Rightarrow>
          if sint r < 0 then Inr (Returned (f1, d1, - 1))
          else fprintf_chars f1 d1 cs (n + 1))"

text \<open>
  The loop of \<open>fprintf\<close> over the format (given without its NUL) and the variadic
  arguments.  A \<open>%\<close> that ends the format makes \<open>*++p\<close> the NUL, which is printed, and
  \<open>p++\<close> then leaves the string.  \<open>va_arg\<close> without an argument of the named type is
  undefined.
\<close>

fun fprintf_loop :: "File \<Rightarrow> os \<Rightarrow> byte list \<Rightarrow> arg list \<Rightarrow> cint \<Rightarrow> error + (File \<times> os \<times> cint)" where
  "fprintf_loop f d [] args n = Inr (f, d, n)"
| "fprintf_loop f d [p] args n =
     (case fputc f d (if p \<noteq> 37 then scast p else 0) of
        Inl e \<Rightarrow> Inl e
      | Inr (f1, d1, r) \<Rightarrow>
          if sint r < 0 then Inr (f1, d1, - 1)
          else if p \<noteq> 37 then Inr (f1, d1, n + 1)
          else Inl Undefined)"
| "fprintf_loop f d (p # q # ps) args n =
     (if p \<noteq> 37 then
        (case fputc f d (scast p) of
           Inl e \<Rightarrow> Inl e
         | Inr (f1, d1, r) \<Rightarrow>
             if sint r < 0 then Inr (f1, d1, - 1)
             else fprintf_loop f1 d1 (q # ps) args (n + 1))
      else if q = 115 then
        (case args of
           Str_arg s # rest \<Rightarrow>
             (case fprintf_chars f d s n of
                Inl e \<Rightarrow> Inl e
              | Inr (Returned res) \<Rightarrow> Inr res
              | Inr (Goes_on (f1, d1, n1)) \<Rightarrow> fprintf_loop f1 d1 ps rest n1)
         | _ \<Rightarrow> Inl Undefined)
      else if q = 100 then
        (case args of
           Int_arg i # rest \<Rightarrow>
             (case itoa i of
                Inl e \<Rightarrow> Inl e
              | Inr s \<Rightarrow>
                  (case fprintf_chars f d s n of
                     Inl e \<Rightarrow> Inl e
                   | Inr (Returned res) \<Rightarrow> Inr res
                   | Inr (Goes_on (f1, d1, n1)) \<Rightarrow> fprintf_loop f1 d1 ps rest n1))
         | _ \<Rightarrow> Inl Undefined)
      else
        (case fputc f d (scast q) of
           Inl e \<Rightarrow> Inl e
         | Inr (f1, d1, r) \<Rightarrow>
             if sint r < 0 then Inr (f1, d1, - 1)
             else fprintf_loop f1 d1 ps args (n + 1)))"

definition fprintf :: "File \<Rightarrow> os \<Rightarrow> byte list \<Rightarrow> arg list \<Rightarrow> error + (File \<times> os \<times> cint)" where
  "fprintf f d format args = fprintf_loop f d format args 0"

text \<open>
  The minimal decimal representation as the specification words it: base 10, no
  leading zeros, \<open>0\<close> printed as \<open>"0"\<close>, a leading \<open>-\<close> for negatives.  It is defined
  on its own, to compare \<open>itoa\<close> with.
\<close>

fun digits :: "nat \<Rightarrow> byte list" where
  "digits n = (if n < 10 then [of_nat (48 + n)] else digits (n div 10) @ [of_nat (48 + n mod 10)])"

definition decimal :: "int \<Rightarrow> byte list" where
  "decimal i = (if i < 0 then 45 # digits (nat (- i)) else digits (nat i))"

section \<open>The invariant of the data model and programs over a stream\<close>

text \<open>
  The valid length of the data model, in the words of the specification: in read mode
  the bytes fetched from the descriptor, which the code keeps in \<open>bufEnd\<close>; in write
  mode the bytes pending flush, "aliased to cursor", for which the code has \<open>bufAt\<close>
  only.  The cursor is \<open>bufAt\<close> in both modes.
\<close>

definition valid_len :: "File \<Rightarrow> size_t" where
  "valid_len f = (if lastAct f = CHR ''w'' then bufAt f else bufEnd f)"

text \<open>
  The invariant \<open>0 <= cursor <= valid_len <= capacity\<close>; the first inequality is the
  type of \<open>bufAt\<close>.
\<close>

definition stream_inv :: "File \<Rightarrow> bool" where
  "stream_inv f = (bufAt f \<le> valid_len f \<and> valid_len f \<le> of_nat bufsiz)"

text \<open>The two members within each other and within the buffer.\<close>

definition buf_bounds :: "File \<Rightarrow> bool" where
  "buf_bounds f = (bufAt f \<le> bufEnd f \<and> bufEnd f \<le> of_nat bufsiz)"

text \<open>
  What the operations keep true of a stream opened with mode \<open>"r"\<close> while no \<open>read\<close>
  fails: the buffer has its allocated size, the members are within bounds, and
  outside read mode the buffer is empty.
\<close>

definition ro_inv :: "File \<Rightarrow> bool" where
  "ro_inv f =
     (fmode f = CHR ''r'' \<and> length (buf f) = bufsiz \<and> buf_bounds f
      \<and> (lastAct f = CHR ''r'' \<or> lastAct f = CHR ''0'' \<and> bufAt f = 0 \<and> bufEnd f = 0))"

text \<open>
  What the operations keep true of a stream opened with mode \<open>"w"\<close>: \<open>bufAt\<close> stays
  within the buffer and \<open>bufEnd\<close> stays 0.
\<close>

definition wo_inv :: "File \<Rightarrow> bool" where
  "wo_inv f =
     (fmode f = CHR ''w'' \<and> length (buf f) = bufsiz \<and> unat (bufAt f) \<le> bufsiz
      \<and> bufEnd f = 0 \<and> lastAct f \<noteq> CHR ''r'')"

text \<open>No \<open>read\<close> on the descriptor is scheduled to fail.\<close>

definition reads_ok :: "os \<Rightarrow> bool" where
  "reads_ok d = (Err \<notin> set (rsched d))"

text \<open>
  A client program is a list of calls with their arguments; \<open>perform\<close> makes one call
  and keeps the stream and the descriptor, \<open>perform_all\<close> makes them in order and stops
  at the first call that does not return.
\<close>

datatype call =
    Fread "byte list" size_t size_t
  | Fwrite "byte list" size_t size_t
  | Fgetc
  | Fputc cint
  | Fgets "byte list" int
  | Fputs "byte list"
  | Fflush
  | Fseek size_t Whence

fun perform :: "call \<Rightarrow> File \<Rightarrow> os \<Rightarrow> error + (File \<times> os)" where
  "perform (Fread dst sz nmemb) f d =
     (case fread f d dst sz nmemb of Inl e \<Rightarrow> Inl e | Inr (f1, d1, dst1, r) \<Rightarrow> Inr (f1, d1))"
| "perform (Fwrite src sz nmemb) f d =
     (case fwrite f d src sz nmemb of Inl e \<Rightarrow> Inl e | Inr (f1, d1, r) \<Rightarrow> Inr (f1, d1))"
| "perform Fgetc f d =
     (case fgetc f d of Inl e \<Rightarrow> Inl e | Inr (f1, d1, r) \<Rightarrow> Inr (f1, d1))"
| "perform (Fputc c) f d =
     (case fputc f d c of Inl e \<Rightarrow> Inl e | Inr (f1, d1, r) \<Rightarrow> Inr (f1, d1))"
| "perform (Fgets s sz) f d =
     (case fgets f d s sz of Inl e \<Rightarrow> Inl e | Inr (f1, d1, s1, r) \<Rightarrow> Inr (f1, d1))"
| "perform (Fputs str) f d =
     (case fputs f d str of Inl e \<Rightarrow> Inl e | Inr (f1, d1, r) \<Rightarrow> Inr (f1, d1))"
| "perform Fflush f d =
     (case fflush f d of Inl e \<Rightarrow> Inl e | Inr (f1, d1, r) \<Rightarrow> Inr (f1, d1))"
| "perform (Fseek offset whence) f d =
     (case fseek f d offset whence of Inl e \<Rightarrow> Inl e | Inr (f1, d1, r) \<Rightarrow> Inr (f1, d1))"

fun perform_all :: "call list \<Rightarrow> File \<Rightarrow> os \<Rightarrow> error + (File \<times> os)" where
  "perform_all [] f d = Inr (f, d)"
| "perform_all (c # cs) f d =
     (case perform c f d of Inl e \<Rightarrow> Inl e | Inr (f1, d1) \<Rightarrow> perform_all cs f1 d1)"

text \<open>The calls that store into an array of the caller.\<close>

fun takes_array :: "call \<Rightarrow> bool" where
  "takes_array (Fread dst sz nmemb) = True"
| "takes_array (Fgets s sz) = True"
| "takes_array c = False"

section \<open>Streams and files used as concrete inputs\<close>

text \<open>The object the constructor builds from a zero-filled block, for the mode character \<open>m\<close>.\<close>

definition opened :: "char \<Rightarrow> File" where
  "opened m = \<lparr>buf = replicate bufsiz 0, bufAt = 0, bufEnd = 0, fmode = m,
               lastAct = CHR ''0'', err = 0, endf = False\<rparr>"

text \<open>A descriptor at offset 0 of a file holding \<open>bs\<close>, with nothing injected.\<close>

definition disk :: "byte list \<Rightarrow> os" where
  "disk bs = \<lparr>fdata = bs, fpos = 0, rsched = [], wsched = [], ssched = []\<rparr>"

text \<open>A stream in write mode whose buffer holds the two pending bytes 7 and 8.\<close>

definition pending :: "char \<Rightarrow> File" where
  "pending m = \<lparr>buf = 7 # 8 # replicate (bufsiz - 2) 0, bufAt = 2, bufEnd = 0, fmode = m,
                lastAct = CHR ''w'', err = 0, endf = False\<rparr>"

section \<open>Results\<close>

text \<open>
  The equations of the loops rewrite a loop into itself; they are used where a proof
  names them.
\<close>

declare fwrite_loop.simps [simp del]
declare fread_drain.simps [simp del]
declare fread_copy.simps [simp del]
declare fgets_loop.simps [simp del]
declare itoa_loop.simps [simp del]
declare digits.simps [simp del]

text \<open>The equations that evaluate a call on a concrete stream and descriptor.\<close>

lemmas run_simps =
  fwrite_loop.simps fread_drain.simps fread_copy.simps fgets_loop.simps
  opened_def disk_def pending_def bufsiz_def eof_def eof_size_def emptied_def feof_def
  next_res_def granted_def put_bytes_def sys_read_def sys_write_def sys_lseek_def
  fflush_def fwrite_def fread_pending_def fread_fetch_def fread_def fgetc_def fputc_def
  fgets_def fseek_def

text \<open>A \<open>write\<close> of no byte leaves the file as it is, also past its end.\<close>

lemma sys_write_nothing: "fdata (fst (sys_write d [])) = fdata d"
  by (simp add: sys_write_def put_bytes_def Let_def)

lemma File_ctor_opened:
  "File_ctor (replicate bufsiz 0) True ''r'' = Inr (opened CHR ''r'')"
  "File_ctor (replicate bufsiz 0) True ''w'' = Inr (opened CHR ''w'')"
  "File_ctor (replicate bufsiz 0) True ''r+'' = Inr (opened CHR ''+'')"
  by (simp_all add: File_ctor_def opened_def)

subsection \<open>C1: a failed read during fgets\<close>

text \<open>
  C1 says that a hard read error during \<open>fgets\<close> makes the call return no data, with the
  descriptor back where it was.  The code does not do so: on a freshly opened
  read-only stream over the bytes 1, 2, 3 whose first \<open>read\<close> fails, \<open>fgets(s, 2)\<close>
  returns \<open>s\<close> (not \<open>NULL\<close>) filled with two stale bytes of the buffer, records no error
  and leaves \<open>bufEnd\<close> at \<open>2^64 - 1\<close>; the rollback branch is not entered.
\<close>

theorem fgets_failed_read_returns_data:
  "fgets (opened CHR ''r'') ((disk [1, 2, 3])\<lparr>rsched := [Err]\<rparr>) [9, 9] 2 =
     Inr (\<lparr>buf = replicate bufsiz 0, bufAt = 2, bufEnd = - 1, fmode = CHR ''r'',
           lastAct = CHR ''r'', err = 0, endf = False\<rparr>,
          disk [1, 2, 3], [0, 0], True)"
  by (simp add: run_simps)

text \<open>
  The same when the failure comes after a character was scanned.  The first \<open>read\<close>
  delivers one byte, the second fails: \<open>fgets(s, 2)\<close> returns \<open>s\<close> holding that byte
  twice, and the descriptor stays at offset 1, not at the offset 0 it had before the
  call.
\<close>

lemma fgets_failed_second_read:
  "fgets (opened CHR ''r'') ((disk [1, 2, 3])\<lparr>rsched := [Partial 1, Err]\<rparr>) [9, 9] 2 =
     Inr (\<lparr>buf = 1 # replicate (bufsiz - 1) 0, bufAt = 1, bufEnd = - 1, fmode = CHR ''r'',
           lastAct = CHR ''r'', err = 0, endf = False\<rparr>,
          (disk [1, 2, 3])\<lparr>fpos := 1\<rparr>, [1, 1], True)"
  by (simp add: run_simps)

text \<open>
  What does enter the rollback branch is a byte 255 in the data, which \<open>fgetc\<close> widens
  to \<open>-1\<close>.  On a fresh stream the branch then seeks back by one full buffer, which a
  file shorter than that does not allow, and the call throws.
\<close>

lemma fgets_byte_255_throws:
  "fgets (opened CHR ''r'') (disk [1, 255, 2]) [9, 9, 9] 3 = Inl (Throw ''Reposition failure'')"
  by (simp add: run_simps)

subsection \<open>C2: fgetc and the EOF sentinel\<close>

text \<open>
  C2 says that \<open>fgetc\<close> returns the EOF sentinel \<open>-1\<close> at end-of-stream and on a hard read
  error.  The code returns 0 in both cases: on an empty file it sets the end flag and
  returns the NUL that \<open>temp\<close> was initialised with, and after a failed \<open>read\<close> it returns
  the stale first byte of the buffer with no error recorded.
\<close>

theorem fgetc_returns_zero_not_eof:
  "fgetc (opened CHR ''r'') (disk []) =
     Inr (\<lparr>buf = replicate bufsiz 0, bufAt = 0, bufEnd = 0, fmode = CHR ''r'',
           lastAct = CHR ''0'', err = 0, endf = True\<rparr>, disk [], 0)
   \<and> fgetc (opened CHR ''r'') ((disk [1, 2, 3])\<lparr>rsched := [Err]\<rparr>) =
       Inr (\<lparr>buf = replicate bufsiz 0, bufAt = 1, bufEnd = - 1, fmode = CHR ''r'',
             lastAct = CHR ''r'', err = 0, endf = False\<rparr>, disk [1, 2, 3], 0)
   \<and> eof \<noteq> 0"
  by (simp add: run_simps)

subsection \<open>C3: last action after fwrite\<close>

text \<open>
  C3 says that every \<open>fwrite\<close> that is neither refused nor failing ends with
  \<open>lastAct = 'w'\<close>, also when it had to flush first.  The code assigns \<open>'w'\<close> before the
  flush, and the flush resets it to \<open>'0'\<close>: writing one byte to a stream whose buffer is
  full leaves that byte in the buffer with \<open>lastAct = '0'\<close> (so a later flush or close
  does not write it), and writing 8193 bytes to a fresh stream ends with \<open>'0'\<close> as well.
\<close>

theorem fwrite_after_flush_last_action:
  "fwrite ((opened CHR ''w'')\<lparr>bufAt := 8192, lastAct := CHR ''w''\<rparr>) (disk []) [65] 1 1 =
     Inr (\<lparr>buf = (replicate bufsiz 0)[0 := 65], bufAt = 1, bufEnd = 0, fmode = CHR ''w'',
           lastAct = CHR ''0'', err = 0, endf = False\<rparr>,
          (disk (replicate 8192 0))\<lparr>fpos := 8192\<rparr>, 1)
   \<and> fwrite (opened CHR ''w'') (disk []) (replicate 8193 65) 1 8193 =
       Inr (\<lparr>buf = replicate bufsiz 0, bufAt = 0, bufEnd = 0, fmode = CHR ''w'',
             lastAct = CHR ''0'', err = 0, endf = False\<rparr>,
            (disk (replicate 8193 65))\<lparr>fpos := 8193\<rparr>, 8193)"
  by (simp add: run_simps)

text \<open>
  The byte left behind in the first case is lost to a flush: \<open>lastAct\<close> being \<open>'0'\<close>,
  \<open>fflush\<close> empties the buffer and writes nothing.
\<close>

lemma fflush_drops_byte_left_by_fwrite:
  "fflush \<lparr>buf = (replicate bufsiz 0)[0 := 65], bufAt = 1, bufEnd = 0, fmode = CHR ''w'',
           lastAct = CHR ''0'', err = 0, endf = False\<rparr>
     ((disk (replicate 8192 0))\<lparr>fpos := 8192\<rparr>) =
   Inr (\<lparr>buf = (replicate bufsiz 0)[0 := 65], bufAt = 0, bufEnd = 0, fmode = CHR ''w'',
         lastAct = CHR ''0'', err = 0, endf = False\<rparr>,
        (disk (replicate 8192 0))\<lparr>fpos := 8192\<rparr>, 0)"
  by (simp add: run_simps)

subsection \<open>C4: the invariant of the data model\<close>

lemma minus_one_above_bufsiz: "\<not> (- 1 :: size_t) \<le> 8192"
proof -
  have e: "(- 1 :: size_t) = 18446744073709551615"
    by simp
  show ?thesis
    unfolding e by simp
qed

text \<open>
  C4 says that \<open>0 <= cursor <= valid_len <= capacity\<close> holds after every operation.
  The code breaks it in read mode as soon as a \<open>read\<close> fails: the \<open>-1\<close> is stored in
  \<open>bufEnd\<close>, the test \<open>bufEnd < 0\<close> never holds, and \<open>fread(ptr, 1, 1)\<close> on a fresh
  read-only stream returns with \<open>lastAct = 'r'\<close> and a valid length of \<open>2^64 - 1\<close>, far
  above the capacity 8192.
\<close>

theorem stream_inv_broken_by_failed_read:
  "fread (opened CHR ''r'') ((disk [1, 2, 3])\<lparr>rsched := [Err]\<rparr>) [9] 1 1 =
     Inr (\<lparr>buf = replicate bufsiz 0, bufAt = 1, bufEnd = - 1, fmode = CHR ''r'',
           lastAct = CHR ''r'', err = 0, endf = False\<rparr>,
          disk [1, 2, 3], [0], 1)
   \<and> valid_len \<lparr>buf = replicate bufsiz 0, bufAt = 1, bufEnd = - 1, fmode = CHR ''r'',
                 lastAct = CHR ''r'', err = 0, endf = False\<rparr> = 18446744073709551615
   \<and> \<not> stream_inv \<lparr>buf = replicate bufsiz 0, bufAt = 1, bufEnd = - 1, fmode = CHR ''r'',
                      lastAct = CHR ''r'', err = 0, endf = False\<rparr>"
  by (simp add: run_simps stream_inv_def valid_len_def minus_one_above_bufsiz)

text \<open>
  Where no \<open>read\<close> fails, a stream opened read-only keeps the invariant, together with
  the rest of \<open>ro_inv\<close>, through every call that returns.  The proof follows the
  blocks of \<open>fread\<close>.
\<close>

lemma fread_drain_result:
  "fread_drain f dst p = Inr (f', dst', p') \<Longrightarrow> bufAt f \<le> bufEnd f
   \<Longrightarrow> f' = f\<lparr>bufAt := bufEnd f\<rparr> \<and> p' = p + (bufEnd f - bufAt f)"
proof (induction f dst p rule: fread_drain.induct)
  case (1 f dst ptrAt)
  show ?case
  proof (cases "bufAt f < bufEnd f")
    case True
    with "1.prems" have ok: "unat (bufAt f) < length (buf f) \<and> unat ptrAt < length dst"
      by (simp add: fread_drain.simps [of f dst ptrAt] split: if_splits)
    from True have le: "bufAt f + 1 \<le> bufEnd f"
      by (rule inc_le)
    from "1.prems" True ok have
      "fread_drain (f\<lparr>bufAt := bufAt f + 1\<rparr>) (dst[unat ptrAt := buf f ! unat (bufAt f)]) (ptrAt + 1)
         = Inr (f', dst', p')"
      by (simp add: fread_drain.simps [of f dst ptrAt])
    with "1.IH" [OF True ok] le show ?thesis
      by simp
  next
    case False
    with "1.prems" show ?thesis
      by (simp add: fread_drain.simps [of f dst ptrAt])
  qed
qed

lemma sys_lseek_rsched: "sys_lseek d off wh = (d1, r) \<Longrightarrow> rsched d1 = rsched d"
  by (auto simp: sys_lseek_def Let_def split: if_splits)

lemma sys_read_reads_ok:
  "sys_read d n = (d1, r, bs) \<Longrightarrow> reads_ok d
   \<Longrightarrow> reads_ok d1 \<and> length bs \<le> n \<and> r = of_nat (length bs)"
proof -
  assume a: "sys_read d n = (d1, r, bs)" and ok: "reads_ok d"
  have tl: "set (tl (rsched d)) \<subseteq> set (rsched d)"
    by (cases "rsched d") auto
  from ok have ne: "next_res (rsched d) \<noteq> Err"
    by (cases "rsched d") (auto simp: next_res_def reads_ok_def)
  have "granted (next_res (rsched d)) n \<le> n"
    by (cases "next_res (rsched d)") (simp_all add: granted_def)
  with a ne tl ok show ?thesis
    by (auto simp: sys_read_def Let_def reads_ok_def)
qed

lemma fflush_ro:
  assumes "fflush f d = Inr (f1, d1, r)" and "ro_inv f" and "reads_ok d"
  shows "ro_inv f1 \<and> reads_ok d1
         \<and> (if r = 0 then f1 = emptied f else f1 = f\<lparr>err := - 4\<rparr>)"
  using assms
  by (auto simp: fflush_def ro_inv_def buf_bounds_def reads_ok_def emptied_def eof_def Let_def
           split: if_splits prod.splits dest: sys_lseek_rsched)

lemma fread_pending_ro:
  assumes "fread_pending f d dst n = Inr res" and "ro_inv f" and "reads_ok d"
  shows "case res of
           Returned (f1, d1, dst1, r) \<Rightarrow> ro_inv f1 \<and> reads_ok d1
         | Goes_on (f1, d1, dst1, p) \<Rightarrow> ro_inv f1 \<and> reads_ok d1"
proof (cases "lastAct f = CHR ''r'' \<and> bufEnd f < bufAt f + n")
  case False
  with assms show ?thesis
    by (auto simp: fread_pending_def)
next
  case True
  from assms(2) have le: "bufAt f \<le> bufEnd f"
    by (simp add: ro_inv_def buf_bounds_def)
  from assms(1) True obtain f1 dst1 p where dr: "fread_drain f dst 0 = Inr (f1, dst1, p)"
    by (auto simp: fread_pending_def split: sum.splits)
  from fread_drain_result [OF dr le] have f1: "f1 = f\<lparr>bufAt := bufEnd f\<rparr>" and p: "p = bufEnd f - bufAt f"
    by simp_all
  from assms(2) f1 have inv1: "ro_inv f1"
    by (auto simp: ro_inv_def buf_bounds_def)
  from assms(1) True dr obtain f2 d2 r where fl: "fflush f1 d = Inr (f2, d2, r)"
    by (auto simp: fread_pending_def split: sum.splits)
  from fflush_ro [OF fl inv1 assms(3)]
  have inv2: "ro_inv f2" and ok2: "reads_ok d2"
    and shape: "if r = 0 then f2 = emptied f1 else f2 = f1\<lparr>err := - 4\<rparr>"
    by simp_all
  show ?thesis
  proof (cases "r = 0")
    case True
    with assms(1) \<open>lastAct f = CHR ''r'' \<and> bufEnd f < bufAt f + n\<close> dr fl inv2 ok2 show ?thesis
      by (auto simp: fread_pending_def)
  next
    case False
    with shape f1 p have "f2\<lparr>bufAt := bufAt f2 - p\<rparr> = f\<lparr>err := - 4\<rparr>"
      by simp
    moreover from assms(2) have "ro_inv (f\<lparr>err := - 4\<rparr>)"
      by (simp add: ro_inv_def buf_bounds_def)
    ultimately show ?thesis
      using assms(1) \<open>lastAct f = CHR ''r'' \<and> bufEnd f < bufAt f + n\<close> dr fl False ok2
      by (auto simp: fread_pending_def)
  qed
qed

lemma of_nat_le_bufsiz: "k \<le> bufsiz \<Longrightarrow> (of_nat k :: size_t) \<le> of_nat bufsiz"
proof -
  assume "k \<le> bufsiz"
  then have "k mod 2 ^ 64 = k"
    by (simp add: bufsiz_def)
  then show ?thesis
    by (simp add: word_le_nat_alt unat_of_nat bufsiz_def \<open>k \<le> bufsiz\<close> [unfolded bufsiz_def])
qed

lemma fread_fetch_ro:
  assumes "fread_fetch f d dst n p = Inr res" and "ro_inv f" and "reads_ok d"
  shows "case res of
           Returned (f1, d1, dst1, r) \<Rightarrow> ro_inv f1 \<and> reads_ok d1
         | Goes_on (f1, d1, dst1) \<Rightarrow> ro_inv (f1\<lparr>lastAct := CHR ''r''\<rparr>) \<and> reads_ok d1"
proof (cases "lastAct f = CHR ''0''")
  case False
  with assms show ?thesis
    by (auto simp: fread_fetch_def ro_inv_def buf_bounds_def)
next
  case idle: True
  with assms(2) have zero: "bufAt f = 0" "bufEnd f = 0" and len: "length (buf f) = bufsiz"
    and mode: "fmode f = CHR ''r''"
    by (auto simp: ro_inv_def)
  show ?thesis
  proof (cases "of_nat bufsiz < n - p")
    case True
    obtain d1 r bs where rd: "sys_read d (unat n) = (d1, r, bs)"
      by (cases "sys_read d (unat n)") auto
    from sys_read_reads_ok [OF rd assms(3)] have "reads_ok d1"
      by simp
    with assms(1,2) idle True rd show ?thesis
      by (auto simp: fread_fetch_def Let_def ro_inv_def buf_bounds_def split: if_splits)
  next
    case False
    obtain d1 r bs where rd: "sys_read d bufsiz = (d1, r, bs)"
      by (cases "sys_read d bufsiz") auto
    from sys_read_reads_ok [OF rd assms(3)]
    have ok1: "reads_ok d1" and bs: "length bs \<le> bufsiz" and r: "r = of_nat (length bs)"
      by simp_all
    from bs have rle: "r \<le> of_nat bufsiz"
      unfolding r by (rule of_nat_le_bufsiz)
    from assms(1) idle False rd bs len zero mode ok1 rle show ?thesis
      by (auto simp: fread_fetch_def Let_def ro_inv_def buf_bounds_def split: if_splits)
  qed
qed

lemma step_inside:
  assumes "ro_inv f" and "\<not> (bufAt f = bufEnd f \<and> bufEnd f < of_nat bufsiz)"
    and "unat (bufAt f) < length (buf f)"
  shows "bufAt f + 1 \<le> bufEnd f"
proof -
  from assms(1) have le: "bufAt f \<le> bufEnd f" and cap: "bufEnd f \<le> of_nat bufsiz"
    and len: "length (buf f) = bufsiz"
    by (simp_all add: ro_inv_def buf_bounds_def)
  have "bufAt f \<noteq> bufEnd f"
  proof
    assume eq: "bufAt f = bufEnd f"
    with assms(2) cap have "bufEnd f = of_nat bufsiz"
      by simp
    with eq assms(3) len show False
      by (simp add: bufsiz_def)
  qed
  with le have "bufAt f < bufEnd f"
    by simp
  then show ?thesis
    by (rule inc_le)
qed

lemma fread_copy_ro:
  "fread_copy f dst n p = Inr (f', dst', p') \<Longrightarrow> ro_inv f \<Longrightarrow> lastAct f = CHR ''r''
   \<Longrightarrow> ro_inv f'"
proof (induction f dst n p rule: fread_copy.induct)
  case (1 f dst n ptrAt)
  note eq = fread_copy.simps [of f dst n ptrAt]
  show ?case
  proof (cases "ptrAt < n")
    case False
    with "1.prems" show ?thesis
      by (simp add: eq)
  next
    case more: True
    show ?thesis
    proof (cases "bufAt f = bufEnd f \<and> bufEnd f < of_nat bufsiz")
      case True
      with "1.prems" more show ?thesis
        by (auto simp: eq ro_inv_def buf_bounds_def)
    next
      case False
      with "1.prems"(1) more have ok: "unat (bufAt f) < length (buf f) \<and> unat ptrAt < length dst"
        by (simp add: eq split: if_splits)
      from step_inside [OF "1.prems"(2) False] ok have le: "bufAt f + 1 \<le> bufEnd f"
        by simp
      with "1.prems"(2,3) have inv: "ro_inv (f\<lparr>bufAt := bufAt f + 1\<rparr>)"
        by (simp add: ro_inv_def buf_bounds_def)
      from "1.prems"(1) more False ok have
        "fread_copy (f\<lparr>bufAt := bufAt f + 1\<rparr>) (dst[unat ptrAt := buf f ! unat (bufAt f)]) n (ptrAt + 1)
           = Inr (f', dst', p')"
        by (simp add: eq)
      from "1.IH" [OF more False ok this inv] "1.prems"(3) show ?thesis
        by simp
    qed
  qed
qed

lemma fread_ro:
  assumes "fread f d dst sz nmemb = Inr (f', d', dst', r)" and "ro_inv f" and "reads_ok d"
  shows "ro_inv f' \<and> reads_ok d'"
proof -
  from assms(2) have mode: "fmode f = CHR ''r''" and act: "lastAct f \<noteq> CHR ''w''"
    by (auto simp: ro_inv_def)
  let ?n = "sz * nmemb"
  from assms(1) mode act obtain res1 where p1: "fread_pending f d dst ?n = Inr res1"
    by (auto simp: fread_def split: sum.splits)
  note i1 = fread_pending_ro [OF p1 assms(2,3)]
  show ?thesis
  proof (cases res1)
    case (Returned x)
    with assms(1) mode act p1 i1 show ?thesis
      by (auto simp: fread_def)
  next
    case (Goes_on y)
    obtain f2 d2 dst2 p where y: "y = (f2, d2, dst2, p)"
      by (cases y) auto
    with i1 Goes_on have inv2: "ro_inv f2" and ok2: "reads_ok d2"
      by simp_all
    from assms(1) mode act p1 Goes_on y obtain res2 where p2: "fread_fetch f2 d2 dst2 ?n p = Inr res2"
      by (auto simp: fread_def split: sum.splits)
    note i2 = fread_fetch_ro [OF p2 inv2 ok2]
    show ?thesis
    proof (cases res2)
      case (Returned x)
      with assms(1) mode act p1 \<open>res1 = Goes_on y\<close> y p2 i2 show ?thesis
        by (auto simp: fread_def)
    next
      case g2: (Goes_on z)
      obtain f3 d3 dst3 where z: "z = (f3, d3, dst3)"
        by (cases z) auto
      with i2 g2 have inv3: "ro_inv (f3\<lparr>lastAct := CHR ''r''\<rparr>)" and ok3: "reads_ok d3"
        by simp_all
      from assms(1) mode act p1 \<open>res1 = Goes_on y\<close> y p2 g2 z
      have "fread_copy (f3\<lparr>lastAct := CHR ''r''\<rparr>) dst3 ?n p = Inr (f', dst', r) \<and> d' = d3"
        by (auto simp: fread_def split: sum.splits)
      then have cp: "fread_copy (f3\<lparr>lastAct := CHR ''r''\<rparr>) dst3 ?n p = Inr (f', dst', r)"
        and d': "d' = d3"
        by simp_all
      from fread_copy_ro [OF cp inv3] ok3 d' show ?thesis
        by simp
    qed
  qed
qed

lemma fgetc_ro:
  assumes "fgetc f d = Inr (f', d', c)" and "ro_inv f" and "reads_ok d"
  shows "ro_inv f' \<and> reads_ok d'"
proof -
  from assms(1) obtain temp r where "fread f d [0] 1 1 = Inr (f', d', temp, r)"
    by (auto simp: fgetc_def split: sum.splits list.splits)
  from fread_ro [OF this assms(2,3)] show ?thesis .
qed

lemma fgets_loop_ro:
  "fgets_loop off f d s sz i sAt ov = Inr (f', d', s', b) \<Longrightarrow> ro_inv f \<Longrightarrow> reads_ok d
   \<Longrightarrow> ro_inv f' \<and> reads_ok d'"
proof (induction off f d s sz i sAt ov rule: fgets_loop.induct)
  case (1 file_offset f d s sz i sAt overflow)
  note eq = fgets_loop.simps [of file_offset f d s sz i sAt overflow]
  show ?case
  proof (cases "i < sz")
    case False
    with "1.prems" show ?thesis
      by (simp add: eq)
  next
    case more: True
    with "1.prems"(1) obtain f1 d1 temp where gc: "fgetc f d = Inr (f1, d1, temp)"
      by (auto simp: eq split: sum.splits)
    from fgetc_ro [OF gc "1.prems"(2,3)] have inv1: "ro_inv f1" and ok1: "reads_ok d1"
      by simp_all
    let ?ov = "if bufAt f1 = bufEnd f1 then overflow + 1 else overflow"
    from "1.prems"(1) more gc have small: "\<not> 2 ^ 31 \<le> ?ov"
      by (auto simp: eq Let_def split: if_splits)
    show ?thesis
    proof (cases "temp = eof")
      case True
      show ?thesis
      proof (cases "feof f1")
        case True
        with "1.prems"(1) more gc small \<open>temp = eof\<close> inv1 ok1 show ?thesis
          by (auto simp: eq Let_def split: if_splits)
      next
        case False
        from inv1 have "ro_inv (f1\<lparr>bufAt := 0, bufEnd := 0, lastAct := CHR ''0''\<rparr>)"
          by (simp add: ro_inv_def buf_bounds_def)
        with "1.prems"(1) more gc small \<open>temp = eof\<close> False ok1 show ?thesis
          by (auto simp: eq Let_def reads_ok_def split: if_splits prod.splits dest: sys_lseek_rsched)
      qed
    next
      case False
      show ?thesis
      proof (cases "sAt < length s \<and> temp \<noteq> 10")
        case True
        with "1.prems"(1) more gc small False have
          "fgets_loop file_offset f1 d1 (s[sAt := ucast temp]) sz (i + 1) (Suc sAt) ?ov
             = Inr (f', d', s', b)"
          by (auto simp: eq Let_def split: if_splits)
        with "1.IH" [OF more gc refl refl refl small False _ refl _ this inv1 ok1] True
        show ?thesis
          by simp
      next
        case stop: False
        with "1.prems"(1) more gc small False inv1 ok1 show ?thesis
          by (auto simp: eq Let_def split: if_splits)
      qed
    qed
  qed
qed

lemma fgets_ro:
  assumes "fgets f d s sz = Inr (f', d', s', b)" and "ro_inv f" and "reads_ok d"
  shows "ro_inv f' \<and> reads_ok d'"
proof -
  from assms(2) have "fmode f = CHR ''r''" and "lastAct f \<noteq> CHR ''w''"
    by (auto simp: ro_inv_def)
  with assms(1) have
    "fgets_loop (sint (ucast (bufAt f) :: cint)) f d s sz 0 0 (if bufAt f = bufEnd f then 1 else 0)
       = Inr (f', d', s', b)"
    by (simp add: fgets_def)
  from fgets_loop_ro [OF this assms(2,3)] show ?thesis .
qed

lemma fseek_ro:
  assumes "fseek f d offset whence = Inr (f', d', r)" and "ro_inv f" and "reads_ok d"
  shows "ro_inv f' \<and> reads_ok d'"
proof -
  from assms(1) obtain f1 d1 r1 where fl: "fflush f d = Inr (f1, d1, r1)"
    by (auto simp: fseek_def split: sum.splits)
  from fflush_ro [OF fl assms(2,3)] have inv1: "ro_inv f1" and ok1: "reads_ok d1"
    by simp_all
  then have "ro_inv (f1\<lparr>endf := False\<rparr>)"
    by (simp add: ro_inv_def buf_bounds_def)
  with assms(1) fl inv1 ok1 show ?thesis
    by (auto simp: fseek_def Let_def reads_ok_def split: prod.splits if_splits dest: sys_lseek_rsched)
qed

lemma perform_ro:
  assumes "perform c f d = Inr (f', d')" and "ro_inv f" and "reads_ok d"
  shows "ro_inv f' \<and> reads_ok d'"
proof (cases c)
  case (Fread dst sz nmemb)
  with assms(1) obtain dst1 r where "fread f d dst sz nmemb = Inr (f', d', dst1, r)"
    by (auto split: sum.splits)
  from fread_ro [OF this assms(2,3)] show ?thesis .
next
  case (Fwrite src sz nmemb)
  with assms show ?thesis
    by (auto simp: fwrite_def ro_inv_def)
next
  case Fgetc
  with assms(1) obtain r where "fgetc f d = Inr (f', d', r)"
    by (auto split: sum.splits)
  from fgetc_ro [OF this assms(2,3)] show ?thesis .
next
  case (Fputc x)
  with assms show ?thesis
    by (auto simp: fputc_def fwrite_def ro_inv_def)
next
  case (Fgets s sz)
  with assms(1) obtain s1 r where "fgets f d s sz = Inr (f', d', s1, r)"
    by (auto split: sum.splits)
  from fgets_ro [OF this assms(2,3)] show ?thesis .
next
  case (Fputs str)
  with assms show ?thesis
    by (auto simp: fputs_def ro_inv_def)
next
  case Fflush
  with assms(1) obtain r where "fflush f d = Inr (f', d', r)"
    by (auto split: sum.splits)
  from fflush_ro [OF this assms(2,3)] show ?thesis
    by simp
next
  case (Fseek offset whence)
  with assms(1) obtain r where "fseek f d offset whence = Inr (f', d', r)"
    by (auto split: sum.splits)
  from fseek_ro [OF this assms(2,3)] show ?thesis .
qed

lemma perform_all_ro:
  "perform_all cs f d = Inr (f', d') \<Longrightarrow> ro_inv f \<Longrightarrow> reads_ok d \<Longrightarrow> ro_inv f' \<and> reads_ok d'"
proof (induction cs arbitrary: f d)
  case Nil
  then show ?case by simp
next
  case (Cons c cs)
  from Cons.prems(1) obtain f1 d1 where one: "perform c f d = Inr (f1, d1)"
    and rest: "perform_all cs f1 d1 = Inr (f', d')"
    by (auto split: sum.splits)
  from perform_ro [OF one Cons.prems(2,3)] have "ro_inv f1" and "reads_ok d1"
    by simp_all
  with Cons.IH [OF rest] show ?case .
qed

lemma File_ctor_ro:
  assumes "File_ctor mem opens ''r'' = Inr f" and "length mem = bufsiz"
  shows "ro_inv f"
  using assms by (auto simp: File_ctor_def ro_inv_def buf_bounds_def split: if_splits)

lemma ro_inv_stream_inv: "ro_inv f \<Longrightarrow> stream_inv f"
  by (auto simp: ro_inv_def buf_bounds_def stream_inv_def valid_len_def)

text \<open>
  On a stream opened with mode \<open>"r"\<close> whose descriptor has no failing \<open>read\<close>,
  \<open>0 <= cursor <= valid_len <= capacity\<close> holds after the constructor and after every
  sequence of \<open>fread\<close>, \<open>fwrite\<close>, \<open>fgetc\<close>, \<open>fputc\<close>, \<open>fgets\<close>, \<open>fputs\<close>, \<open>fflush\<close>
  and \<open>fseek\<close> calls that return.
\<close>

lemma readonly_stream_invariant:
  assumes "File_ctor mem opens ''r'' = Inr f0" and "length mem = bufsiz"
    and "reads_ok d0" and "perform_all cs f0 d0 = Inr (f, d)"
  shows "stream_inv f"
proof -
  from assms(1,2) have "ro_inv f0"
    by (rule File_ctor_ro)
  with perform_all_ro [OF assms(4) _ assms(3)] show ?thesis
    by (simp add: ro_inv_stream_inv)
qed

lemma readonly_stream_invariant_example:
  "File_ctor (replicate bufsiz 0) True ''r'' = Inr (opened CHR ''r'')
   \<and> length (replicate bufsiz (0 :: byte)) = bufsiz
   \<and> reads_ok (disk [104, 105, 10, 106])
   \<and> perform_all [Fgets [0, 0, 0, 0] 4, Fgetc, Fseek 1 seek_set, Fread [0, 0] 1 2, Fputc 65, Fflush]
        (opened CHR ''r'') (disk [104, 105, 10, 106]) =
       Inr ((opened CHR ''r'')\<lparr>buf := 105 # 10 # 106 # 106 # replicate 8188 0\<rparr>,
            (disk [104, 105, 10, 106])\<lparr>fpos := 3\<rparr>)
   \<and> stream_inv ((opened CHR ''r'')\<lparr>buf := 105 # 10 # 106 # 106 # replicate 8188 0\<rparr>)"
proof -
  have ctor: "File_ctor (replicate bufsiz 0) True ''r'' = Inr (opened CHR ''r'')"
    by (simp add: File_ctor_def opened_def)
  have len: "length (replicate bufsiz (0 :: byte)) = bufsiz"
    by simp
  have ok: "reads_ok (disk [104, 105, 10, 106])"
    by (simp add: reads_ok_def disk_def)
  have run: "perform_all [Fgets [0, 0, 0, 0] 4, Fgetc, Fseek 1 seek_set, Fread [0, 0] 1 2, Fputc 65, Fflush]
        (opened CHR ''r'') (disk [104, 105, 10, 106]) =
       Inr ((opened CHR ''r'')\<lparr>buf := 105 # 10 # 106 # 106 # replicate 8188 0\<rparr>,
            (disk [104, 105, 10, 106])\<lparr>fpos := 3\<rparr>)"
    by (simp add: run_simps)
  from ctor len ok run readonly_stream_invariant [OF ctor len ok run] show ?thesis
    by simp
qed

text \<open>
  On such a stream the calls that store nothing into an array of the caller always
  return: \<open>fgetc\<close> stays inside the buffer, and the others cannot leave it.  For a
  program made of them the invariant therefore holds without a proviso.
\<close>

lemma fflush_ro_returns:
  assumes "ro_inv f"
  shows "\<exists>f1 d1 r. fflush f d = Inr (f1, d1, r)"
  using assms by (auto simp: fflush_def ro_inv_def Let_def split: prod.splits)

lemma bufAt_small:
  assumes "ro_inv f"
  shows "unat (bufAt f) \<le> unat (bufEnd f)" and "unat (bufEnd f) \<le> bufsiz"
  using assms by (simp_all add: ro_inv_def buf_bounds_def word_le_nat_alt bufsiz_def)

text \<open>The last block of \<open>fread\<close> for one byte, from a buffer with a byte left or just refilled.\<close>

lemma fread_copy_one:
  assumes "bufAt f < bufEnd f" and "unat (bufEnd f) \<le> length (buf f)"
  shows "fread_copy f [0] 1 0 = Inr (f\<lparr>bufAt := bufAt f + 1\<rparr>, [buf f ! unat (bufAt f)], 1)"
proof -
  from assms have "unat (bufAt f) < length (buf f)"
    by (simp add: word_less_nat_alt)
  moreover from assms(1) have "bufAt f \<noteq> bufEnd f"
    by simp
  ultimately show ?thesis
    by (simp add: fread_copy.simps [of f] fread_copy.simps [of "f\<lparr>bufAt := bufAt f + 1\<rparr>"])
qed

lemma fread_one_ro_returns:
  assumes inv: "ro_inv f" and ok: "reads_ok d"
  shows "\<exists>f1 d1 c r. fread f d [0] 1 1 = Inr (f1, d1, [c], r)"
proof -
  note b = bufAt_small [OF inv]
  from inv have mode: "fmode f = CHR ''r''" and act: "lastAct f \<noteq> CHR ''w''"
    and len: "length (buf f) = bufsiz"
    and acts: "lastAct f = CHR ''r'' \<or> lastAct f = CHR ''0'' \<and> bufAt f = 0 \<and> bufEnd f = 0"
    by (auto simp: ro_inv_def)
  have one: "unat (bufAt f + 1) = unat (bufAt f) + 1"
    using b by (simp add: unat_word_ariths bufsiz_def)
  have fetch: "\<exists>f1 d1 c r. (case fread_fetch g e [0] 1 0 of
                 Inl x \<Rightarrow> Inl x
               | Inr (Returned res) \<Rightarrow> Inr res
               | Inr (Goes_on (f3, d3, dst3)) \<Rightarrow>
                   (case fread_copy (f3\<lparr>lastAct := CHR ''r''\<rparr>) dst3 (1 * 1) 0 of
                      Inl x \<Rightarrow> Inl x
                    | Inr (f4, dst4, ptrAt4) \<Rightarrow> Inr (f4, d3, dst4, ptrAt4))) = Inr (f1, d1, [c], r)"
    if idle: "lastAct g = CHR ''0''" "bufAt g = 0" "length (buf g) = bufsiz" and oke: "reads_ok e"
    for g e
  proof -
    obtain d1 r bs where rd: "sys_read e bufsiz = (d1, r, bs)"
      by (cases "sys_read e bufsiz") auto
    from sys_read_reads_ok [OF rd oke] have bs: "length bs \<le> bufsiz" and r: "r = of_nat (length bs)"
      by simp_all
    show ?thesis
    proof (cases "r = 0")
      case True
      with idle rd bs show ?thesis
        by (simp add: fread_fetch_def bufsiz_def)
    next
      case False
      let ?g = "g\<lparr>buf := bs @ drop (length bs) (buf g), bufEnd := r, lastAct := CHR ''r''\<rparr>"
      from bs r have "unat r = length bs"
        by (simp add: unat_of_nat bufsiz_def)
      with False idle bs have "bufAt ?g < bufEnd ?g" and "unat (bufEnd ?g) \<le> length (buf ?g)"
        by (simp_all add: word_neq_0_conv)
      from fread_copy_one [OF this] False idle rd bs show ?thesis
        by (simp add: fread_fetch_def bufsiz_def)
    qed
  qed
  show ?thesis
  proof (cases "lastAct f = CHR ''r''")
    case False
    with acts have idle: "lastAct f = CHR ''0''" "bufAt f = 0"
      by simp_all
    from fetch [OF idle len ok] mode idle show ?thesis
      by (simp add: fread_def fread_pending_def)
  next
    case rd: True
    show ?thesis
    proof (cases "bufEnd f < bufAt f + 1")
      case False
      let ?g = "f\<lparr>lastAct := CHR ''r''\<rparr>"
      from False one have "bufAt ?g < bufEnd ?g"
        by (simp add: word_less_nat_alt)
      moreover from b len have "unat (bufEnd ?g) \<le> length (buf ?g)"
        by simp
      ultimately have "fread_copy ?g [0] 1 0 = Inr (?g\<lparr>bufAt := bufAt ?g + 1\<rparr>, [buf ?g ! unat (bufAt ?g)], 1)"
        by (rule fread_copy_one)
      with mode rd False show ?thesis
        by (simp add: fread_def fread_pending_def fread_fetch_def)
    next
      case True
      with one b have "bufAt f = bufEnd f"
        by (simp add: word_less_nat_alt word_unat_eq_iff)
      then have dr: "fread_drain f [0] 0 = Inr (f, [0], 0)"
        by (simp add: fread_drain.simps [of f])
      obtain f1 d1 r where fl: "fflush f d = Inr (f1, d1, r)"
        using fflush_ro_returns [OF inv, of d] by blast
      from fflush_ro [OF fl inv ok] have ok1: "reads_ok d1"
        and shape: "if r = 0 then f1 = emptied f else f1 = f\<lparr>err := - 4\<rparr>"
        by simp_all
      show ?thesis
      proof (cases "r = 0")
        case False
        with mode rd True dr fl show ?thesis
          by (simp add: fread_def fread_pending_def)
      next
        case zero: True
        with shape have f1: "f1 = emptied f"
          by simp
        then have idle: "lastAct f1 = CHR ''0''" "bufAt f1 = 0" "length (buf f1) = bufsiz"
          using len by (simp_all add: emptied_def)
        from fetch [OF idle ok1] mode rd True dr fl zero show ?thesis
          by (simp add: fread_def fread_pending_def)
      qed
    qed
  qed
qed

lemma fgetc_ro_returns:
  assumes "ro_inv f" and "reads_ok d"
  shows "\<exists>f1 d1 c. fgetc f d = Inr (f1, d1, c)"
proof -
  from fread_one_ro_returns [OF assms] obtain f1 d1 c r where "fread f d [0] 1 1 = Inr (f1, d1, [c], r)"
    by blast
  then show ?thesis
    by (simp add: fgetc_def)
qed

lemma fseek_ro_returns:
  assumes "ro_inv f"
  shows "\<exists>f1 d1 r. fseek f d offset whence = Inr (f1, d1, r)"
proof -
  from fflush_ro_returns [OF assms, of d] obtain f1 d1 r where "fflush f d = Inr (f1, d1, r)"
    by blast
  then show ?thesis
    by (auto simp: fseek_def Let_def split: prod.splits)
qed

lemma perform_ro_returns:
  assumes "ro_inv f" and "reads_ok d" and "\<not> takes_array c"
  shows "\<exists>f1 d1. perform c f d = Inr (f1, d1)"
proof (cases c)
  case Fgetc
  with fgetc_ro_returns [OF assms(1,2)] show ?thesis
    by auto
next
  case Fflush
  with fflush_ro_returns [OF assms(1), of d] show ?thesis
    by auto
next
  case (Fseek offset whence)
  with fseek_ro_returns [OF assms(1), of d offset whence] show ?thesis
    by auto
qed (use assms in \<open>auto simp: fwrite_def fputc_def fputs_def ro_inv_def\<close>)

lemma perform_all_ro_returns:
  "ro_inv f \<Longrightarrow> reads_ok d \<Longrightarrow> \<forall>c \<in> set cs. \<not> takes_array c
   \<Longrightarrow> \<exists>f1 d1. perform_all cs f d = Inr (f1, d1) \<and> stream_inv f1"
proof (induction cs arbitrary: f d)
  case Nil
  then show ?case
    by (simp add: ro_inv_stream_inv)
next
  case (Cons c cs)
  from Cons.prems have "\<not> takes_array c"
    by simp
  from perform_ro_returns [OF Cons.prems(1,2) this] obtain f1 d1 where one: "perform c f d = Inr (f1, d1)"
    by blast
  from perform_ro [OF one Cons.prems(1,2)] have "ro_inv f1" and "reads_ok d1"
    by simp_all
  with Cons.IH [of f1 d1] Cons.prems(3) one show ?case
    by simp
qed

text \<open>
  A stream opened write-only keeps \<open>wo_inv\<close> through every call that returns.
\<close>

lemma fwrite_loop_keeps:
  "fwrite_loop f src n bw = Inr (f', bw') \<Longrightarrow> unat (bufAt f) \<le> length (buf f)
   \<Longrightarrow> unat (bufAt f') \<le> length (buf f') \<and> length (buf f') = length (buf f)
       \<and> bufEnd f' = bufEnd f \<and> fmode f' = fmode f \<and> lastAct f' = lastAct f"
proof (induction f src n bw rule: fwrite_loop.induct)
  case (1 f src n bw)
  note eq = fwrite_loop.simps [of f src n bw]
  show ?case
  proof (cases "bw < n")
    case False
    with "1.prems" show ?thesis
      by (simp add: eq)
  next
    case True
    with "1.prems"(1) have ok: "unat (bufAt f) < length (buf f) \<and> unat bw < length src"
      by (simp add: eq split: if_splits)
    let ?g = "f\<lparr>buf := (buf f)[unat (bufAt f) := src ! unat bw], bufAt := bufAt f + 1\<rparr>"
    have "unat (bufAt f + 1) \<le> Suc (unat (bufAt f))"
      by unat_arith
    with ok have inside: "unat (bufAt ?g) \<le> length (buf ?g)"
      by simp
    from "1.prems"(1) True ok have "fwrite_loop ?g src n (bw + 1) = Inr (f', bw')"
      by (simp add: eq)
    from "1.IH" [OF True ok this inside] show ?thesis
      by simp
  qed
qed

lemma fflush_wo:
  assumes "fflush f d = Inr (f1, d1, r)" and "wo_inv f"
  shows "wo_inv f1"
  using assms
  by (auto simp: fflush_def wo_inv_def emptied_def Let_def split: if_splits prod.splits)

lemma fwrite_wo:
  assumes run: "fwrite f d src sz nmemb = Inr (f', d', r)" and inv: "wo_inv f"
  shows "wo_inv f'"
proof -
  let ?n = "sz * nmemb"
  let ?f2 = "f\<lparr>lastAct := CHR ''w''\<rparr>"
  from inv have mode: "fmode f \<noteq> CHR ''r''" and act: "lastAct f \<noteq> CHR ''r''"
    by (auto simp: wo_inv_def)
  from inv have inv2: "wo_inv ?f2"
    by (simp add: wo_inv_def)
  have copy: "wo_inv g'" if "fwrite_loop g src ?n 0 = Inr (g', bw)" and "wo_inv g" for g g' bw
    using fwrite_loop_keeps [OF that(1)] that(2) by (auto simp: wo_inv_def)
  show ?thesis
  proof (cases "of_nat bufsiz < bufAt ?f2 + ?n")
    case False
    with run mode act obtain bw where "fwrite_loop ?f2 src ?n 0 = Inr (f', bw)"
      by (auto simp: fwrite_def Let_def split: sum.splits)
    from copy [OF this inv2] show ?thesis .
  next
    case True
    with run mode act obtain f3 d3 r3 where fl: "fflush ?f2 d = Inr (f3, d3, r3)"
      by (auto simp: fwrite_def Let_def split: sum.splits)
    from fflush_wo [OF fl inv2] have inv3: "wo_inv f3" .
    show ?thesis
    proof (cases "r3 = 0")
      case False
      with run mode act True fl inv3 show ?thesis
        by (auto simp: fwrite_def Let_def)
    next
      case zero: True
      show ?thesis
      proof (cases "of_nat bufsiz < ?n")
        case False
        with run mode act True fl zero obtain bw where "fwrite_loop f3 src ?n 0 = Inr (f', bw)"
          by (auto simp: fwrite_def Let_def split: sum.splits)
        from copy [OF this inv3] show ?thesis .
      next
        case direct: True
        obtain d4 bw where wr: "sys_write d3 (take (unat ?n) src) = (d4, bw)"
          by (cases "sys_write d3 (take (unat ?n) src)") auto
        show ?thesis
        proof (cases "bw = 0")
          case True
          with run mode act \<open>of_nat bufsiz < bufAt ?f2 + ?n\<close> fl zero direct wr
          obtain bw' where "fwrite_loop f3 src ?n 0 = Inr (f', bw')"
            by (auto simp: fwrite_def Let_def split: sum.splits if_splits)
          from copy [OF this inv3] show ?thesis .
        next
          case False
          with run mode act \<open>of_nat bufsiz < bufAt ?f2 + ?n\<close> fl zero direct wr inv3 show ?thesis
            by (auto simp: fwrite_def Let_def split: sum.splits if_splits)
        qed
      qed
    qed
  qed
qed

lemma fseek_wo:
  assumes "fseek f d offset whence = Inr (f', d', r)" and "wo_inv f"
  shows "wo_inv f'"
proof -
  from assms(1) obtain f1 d1 r1 where fl: "fflush f d = Inr (f1, d1, r1)"
    by (auto simp: fseek_def split: sum.splits)
  from fflush_wo [OF fl assms(2)] have inv1: "wo_inv f1" .
  then have "wo_inv (f1\<lparr>endf := False\<rparr>)"
    by (simp add: wo_inv_def)
  with assms(1) fl inv1 show ?thesis
    by (auto simp: fseek_def Let_def split: prod.splits if_splits)
qed

lemma perform_wo:
  assumes "perform c f d = Inr (f', d')" and "wo_inv f"
  shows "wo_inv f'"
proof (cases c)
  case (Fwrite src sz nmemb)
  with assms(1) obtain r where "fwrite f d src sz nmemb = Inr (f', d', r)"
    by (auto split: sum.splits)
  from fwrite_wo [OF this assms(2)] show ?thesis .
next
  case (Fputc x)
  with assms(1) obtain r where "fwrite f d [ucast x] 1 1 = Inr (f', d', r)"
    by (auto simp: fputc_def split: sum.splits)
  from fwrite_wo [OF this assms(2)] show ?thesis .
next
  case (Fputs str)
  with assms obtain r where
    "fwrite f d str 1 (of_nat (length (takeWhile (\<lambda>c. c \<noteq> 0) str))) = Inr (f', d', r)"
    by (auto simp: fputs_def wo_inv_def split: sum.splits if_splits)
  from fwrite_wo [OF this assms(2)] show ?thesis .
next
  case Fflush
  with assms(1) obtain r where "fflush f d = Inr (f', d', r)"
    by (auto split: sum.splits)
  from fflush_wo [OF this assms(2)] show ?thesis .
next
  case (Fseek offset whence)
  with assms(1) obtain r where "fseek f d offset whence = Inr (f', d', r)"
    by (auto split: sum.splits)
  from fseek_wo [OF this assms(2)] show ?thesis .
qed (use assms in \<open>auto simp: fread_def fgetc_def fgets_def wo_inv_def\<close>)

lemma perform_all_wo:
  "perform_all cs f d = Inr (f', d') \<Longrightarrow> wo_inv f \<Longrightarrow> wo_inv f'"
proof (induction cs arbitrary: f d)
  case Nil
  then show ?case by simp
next
  case (Cons c cs)
  from Cons.prems(1) obtain f1 d1 where one: "perform c f d = Inr (f1, d1)"
    and rest: "perform_all cs f1 d1 = Inr (f', d')"
    by (auto split: sum.splits)
  from perform_wo [OF one Cons.prems(2)] have "wo_inv f1" .
  with Cons.IH [OF rest] show ?case .
qed

text \<open>
  On a stream opened with mode \<open>"w"\<close>, whatever the descriptor does, both members stay
  within the capacity after the constructor and after every sequence of calls that
  returns, and the invariant holds whenever the last action is a write.
\<close>

lemma writeonly_stream_capacity:
  assumes "File_ctor mem opens ''w'' = Inr f0" and "length mem = bufsiz"
    and "perform_all cs f0 d0 = Inr (f, d)"
  shows "bufAt f \<le> of_nat bufsiz \<and> bufEnd f \<le> of_nat bufsiz
         \<and> (lastAct f = CHR ''w'' \<longrightarrow> stream_inv f)"
proof -
  from assms(1,2) have "wo_inv f0"
    by (auto simp: File_ctor_def wo_inv_def split: if_splits)
  from perform_all_wo [OF assms(3) this] have "wo_inv f" .
  then show ?thesis
    by (auto simp: wo_inv_def stream_inv_def valid_len_def word_le_nat_alt bufsiz_def)
qed

text \<open>
  What breaks the invariant outside a failed \<open>read\<close> is the flush inside \<open>fwrite\<close>
  (see C3): it leaves the bytes written after it in a buffer whose last action is
  \<open>'0'\<close>, with \<open>bufAt\<close> above \<open>bufEnd = 0\<close>.  On a read-write stream the next
  \<open>fgetc\<close> refills the buffer without resetting \<open>bufAt\<close>, and the stream is in read
  mode with the cursor 3 above the valid length 1.
\<close>

lemma stream_inv_broken_after_fwrite_flush:
  "\<not> stream_inv \<lparr>buf = (replicate bufsiz 0)[0 := 65], bufAt = 1, bufEnd = 0, fmode = CHR ''w'',
                   lastAct = CHR ''0'', err = 0, endf = False\<rparr>"
  by (simp add: stream_inv_def valid_len_def)

lemma stream_inv_broken_on_read_write_stream:
  "case perform_all [Fwrite [65, 66] 1 2, Fgetc]
          ((opened CHR ''+'')\<lparr>bufAt := 8192, lastAct := CHR ''w''\<rparr>) (disk (replicate 8193 9)) of
     Inl e \<Rightarrow> False
   | Inr (f, d) \<Rightarrow> lastAct f = CHR ''r'' \<and> bufAt f = 3 \<and> bufEnd f = 1 \<and> \<not> stream_inv f"
  by (simp add: run_simps stream_inv_def valid_len_def word_le_nat_alt)

subsection \<open>C5: the write branch of fflush\<close>

lemma sint_small: "n < 2 ^ 63 \<Longrightarrow> sint (of_nat n :: size_t) = int n"
  by (simp add: signed_of_nat signed_take_bit_int_eq_self)

lemma granted_le: "granted r n \<le> n"
  by (cases r) (simp_all add: granted_def)

text \<open>
  The write branch on every stream whose \<open>bufAt\<close> is within the buffer: the first
  \<open>bufAt\<close> bytes go to one \<open>write\<close>; the only result tested is a negative one, on
  which the call returns \<open>eof\<close> and assigns nothing; on any other result, a short
  count among them, it empties the buffer and returns 0.
\<close>

lemma fflush_write_branch:
  assumes w: "lastAct f = CHR ''w''" and len: "length (buf f) = bufsiz" and at: "unat (bufAt f) \<le> bufsiz"
  shows "fflush f d =
     (if next_res (wsched d) = Err
      then Inr (f, d\<lparr>wsched := tl (wsched d)\<rparr>, eof)
      else Inr (f\<lparr>bufAt := 0, bufEnd := 0, lastAct := CHR ''0''\<rparr>,
                d\<lparr>wsched := tl (wsched d),
                  fdata := put_bytes (fdata d) (fpos d)
                             (take (granted (next_res (wsched d)) (unat (bufAt f))) (buf f)),
                  fpos := fpos d + granted (next_res (wsched d)) (unat (bufAt f))\<rparr>, 0))"
proof (cases "next_res (wsched d) = Err")
  case True
  with w len at show ?thesis
    by (simp add: fflush_def sys_write_def Let_def)
next
  case False
  let ?k = "granted (next_res (wsched d)) (unat (bufAt f))"
  have k: "?k \<le> unat (bufAt f)"
    by (rule granted_le)
  with at have "?k < 2 ^ 63"
    by (simp add: bufsiz_def)
  then have nonneg: "sint (of_nat ?k :: size_t) = int ?k"
    by (rule sint_small)
  from k len at have tk: "take ?k (take (unat (bufAt f)) (buf f)) = take ?k (buf f)"
    and lk: "min (length (buf f)) ?k = ?k"
    by (simp_all add: min_absorb1)
  from False w len at nonneg tk k show ?thesis
    by (simp add: fflush_def sys_write_def emptied_def Let_def min_absorb1 min_absorb2)
qed

text \<open>
  C5 says that the flush fails with a write error when the underlying \<open>write\<close> is
  short or fails.  The code does neither.  With the bytes 7 and 8 pending and a
  \<open>write\<close> that takes one byte, \<open>fflush\<close> returns 0 and empties the buffer: the file
  holds 7 alone and 8 is lost.  With a \<open>write\<close> that fails, \<open>fflush\<close> returns \<open>eof\<close>
  but leaves \<open>err = 0\<close>, where \<open>fwrite\<close> and the seek branch of \<open>fflush\<close> assign an
  error code.
\<close>

theorem fflush_write_unchecked:
  "fflush (pending CHR ''w'') ((disk [])\<lparr>wsched := [Partial 1]\<rparr>) =
     Inr (\<lparr>buf = 7 # 8 # replicate (bufsiz - 2) 0, bufAt = 0, bufEnd = 0, fmode = CHR ''w'',
           lastAct = CHR ''0'', err = 0, endf = False\<rparr>,
          (disk [7])\<lparr>fpos := 1\<rparr>, 0)
   \<and> fflush (pending CHR ''w'') ((disk [])\<lparr>wsched := [Err]\<rparr>) =
       Inr (\<lparr>buf = 7 # 8 # replicate (bufsiz - 2) 0, bufAt = 2, bufEnd = 0, fmode = CHR ''w'',
             lastAct = CHR ''w'', err = 0, endf = False\<rparr>,
            disk [], eof)"
  by (simp add: run_simps)

subsection \<open>C6: fseek after a failed sync\<close>

text \<open>
  C6 says that a failure of the sync inside \<open>fseek\<close> ends the call before the descriptor
  seek.  The code drops the result of \<open>fflush\<close>: with two bytes pending and a failing
  \<open>write\<close>, \<open>fseek(1, seek_set)\<close> still moves the descriptor from offset 3 to offset 1 and
  returns 0, the two bytes staying unwritten in the buffer.
\<close>

theorem fseek_ignores_failed_sync:
  "fflush (pending CHR ''w'') ((disk [1, 2, 3, 4, 5])\<lparr>fpos := 3, wsched := [Err]\<rparr>) =
     Inr (pending CHR ''w'', (disk [1, 2, 3, 4, 5])\<lparr>fpos := 3\<rparr>, eof)
   \<and> fseek (pending CHR ''w'') ((disk [1, 2, 3, 4, 5])\<lparr>fpos := 3, wsched := [Err]\<rparr>) 1 seek_set =
       Inr (pending CHR ''w'', (disk [1, 2, 3, 4, 5])\<lparr>fpos := 1\<rparr>, 0)"
  by (simp add: run_simps)

subsection \<open>C7: fread and a failed read\<close>

text \<open>
  C7 says that a failed low-level \<open>read\<close> sets the read error code and makes \<open>fread\<close>
  return the EOF sentinel.  The code tests the \<open>size_t\<close> result for \<open>< 0\<close>, which never
  holds: on a fresh read-only stream whose \<open>read\<close> fails, \<open>fread(ptr, 1, 1)\<close> returns 1,
  delivers the stale first byte of the buffer, keeps \<open>err = 0\<close> and sets \<open>bufEnd\<close> to
  \<open>2^64 - 1\<close>.
\<close>

theorem fread_failed_read_unnoticed:
  "fread (opened CHR ''r'') ((disk [1, 2, 3])\<lparr>rsched := [Err]\<rparr>) [9] 1 1 =
     Inr (\<lparr>buf = replicate bufsiz 0, bufAt = 1, bufEnd = - 1, fmode = CHR ''r'',
           lastAct = CHR ''r'', err = 0, endf = False\<rparr>,
          disk [1, 2, 3], [0], 1)
   \<and> eof_size \<noteq> 1"
  by (simp add: run_simps)

text \<open>
  The other half of C7 holds: a refill of zero bytes sets the end flag and returns the
  number of bytes already delivered, with no error.
\<close>

lemma fread_fetch_zero_refill:
  assumes "lastAct f = CHR ''0''" and "\<not> of_nat bufsiz < n - p"
    and "sys_read d bufsiz = (d1, 0, [])"
  shows "fread_fetch f d dst n p = Inr (Returned (f\<lparr>bufEnd := 0, endf := True\<rparr>, d1, dst, p))"
  using assms by (simp add: fread_fetch_def)

subsection \<open>C8: fwrite on a read-only stream\<close>

text \<open>C8: a stream opened read-only refuses \<open>fwrite\<close>: the call returns the EOF sentinel and
  leaves the stream and the descriptor (hence the file) exactly as they were.\<close>

theorem fwrite_readonly_refused:
  "fmode f = CHR ''r'' \<Longrightarrow> fwrite f d src sz nmemb = Inr (f, d, eof_size)"
  by (simp add: fwrite_def)

theorem fwrite_readonly_refused_witness:
  "fmode (opened CHR ''r'') = CHR ''r''
   \<and> fwrite (opened CHR ''r'') (disk [1, 2]) [65] 1 1 = Inr (opened CHR ''r'', disk [1, 2], eof_size)"
  using fwrite_readonly_refused [of "opened CHR ''r''" "disk [1, 2]" "[65]" 1 1]
  by (simp add: opened_def)

subsection \<open>C9: fprintf and itoa\<close>

text \<open>
  For every \<open>int\<close> but the least one, \<open>itoa\<close> yields the minimal decimal
  representation.
\<close>

lemma itoa_loop_digits: "0 < i \<Longrightarrow> itoa_loop i p = digits (nat i) @ p"
proof (induction i p rule: itoa_loop.induct)
  case (1 i p)
  show ?case
  proof (cases "i < 10")
    case True
    with "1.prems" have "itoa_loop (i div 10) (of_int (48 + i mod 10) # p) = of_int (48 + i mod 10) # p"
      by (simp add: itoa_loop.simps)
    moreover from True "1.prems" have "nat i < 10"
      by simp
    then have "digits (nat i) = [of_nat (48 + nat i)]"
      by (simp add: digits.simps [of "nat i"])
    moreover from True "1.prems" have "(of_nat (48 + nat i) :: byte) = of_int (48 + i mod 10)"
      by simp
    ultimately show ?thesis
      using "1.prems" by (simp add: itoa_loop.simps [of i p])
  next
    case False
    then have pos: "0 < i div 10"
      by simp
    from False "1.prems" have "\<not> nat i < 10"
      by simp
    then have d: "digits (nat i) = digits (nat i div 10) @ [of_nat (48 + nat i mod 10)]"
      by (subst digits.simps) simp
    from "1.prems" have n1: "nat i div 10 = nat (i div 10)"
      by (simp add: nat_div_distrib)
    from "1.prems" have "nat i mod 10 = nat (i mod 10)"
      by (simp add: nat_mod_distrib)
    then have n2: "(of_nat (48 + nat i mod 10) :: byte) = of_int (48 + i mod 10)"
      by (simp add: of_nat_nat del: of_nat_mod)
    from "1.IH" [OF "1.prems" pos] d n1 n2 "1.prems" show ?thesis
      by (simp add: itoa_loop.simps [of i p])
  qed
qed

lemma itoa_decimal:
  assumes "sint i \<noteq> - (2 ^ 31)"
  shows "itoa i = Inr (decimal (sint i))"
proof -
  have lo: "- (2 ^ 31) \<le> sint i"
    using sint_ge [of i] by simp
  show ?thesis
  proof (cases "i = 0")
    case True
    then show ?thesis
      by (simp add: itoa_def decimal_def digits.simps [of 0])
  next
    case False
    then have nz: "sint i \<noteq> 0"
      by (metis sint_0 signed_word_eqI)
    show ?thesis
    proof (cases "sint i < 0")
      case True
      with assms lo have "- sint i < 2 ^ 31" and "0 < - sint i"
        by simp_all
      with True False itoa_loop_digits [of "- sint i" "[]"] show ?thesis
        by (simp add: itoa_def decimal_def)
    next
      case pos: False
      with nz have "0 < sint i"
        by simp
      with pos False itoa_loop_digits [of "sint i" "[]"] show ?thesis
        by (simp add: itoa_def decimal_def)
    qed
  qed
qed

text \<open>
  The example of the specification: on a fresh write-only stream the call buffers
  exactly \<open>-7-ab-%\<close> and returns 7.
\<close>

lemma fprintf_example:
  "case fprintf (opened CHR ''w'') (disk []) (map of_char ''%d-%s-%%'')
          [Int_arg (- 7), Str_arg (map of_char ''ab'')] of
     Inl e \<Rightarrow> False
   | Inr (f, d, r) \<Rightarrow>
       r = 7 \<and> bufAt f = 7 \<and> lastAct f = CHR ''w''
       \<and> map ((!) (buf f)) [0, 1, 2, 3, 4, 5, 6] = map of_char ''-7-ab-%'' \<and> d = disk []"
  by (simp add: run_simps fprintf_def itoa_def itoa_loop.simps)

text \<open>
  C9 says that \<open>%d\<close> prints every signed integer argument in minimal decimal form.  For
  the least \<open>int\<close>, \<open>-2147483648\<close>, the code does not: \<open>itoa\<close> negates it, which
  overflows, so \<open>fprintf("%d", INT_MIN)\<close> has no defined result (where the negation
  wraps, \<open>i\<close> stays negative, the digit loop is skipped and only \<open>-\<close> is printed),
  while the representation asked for has eleven characters.
\<close>

theorem fprintf_least_int_undefined:
  "itoa (- 2147483648) = Inl Undefined
   \<and> fprintf (opened CHR ''w'') (disk []) (map of_char ''%d'') [Int_arg (- 2147483648)]
       = Inl Undefined
   \<and> length (decimal (- 2147483648)) = 11"
  by (simp add: fprintf_def itoa_def decimal_def digits.simps)

subsection \<open>C10: fgets with a size that is not positive\<close>

text \<open>
  C10 as stated fails when the sync fails: on a read-write stream with two bytes
  pending and a failing \<open>write\<close>, \<open>fgets(s, 0)\<close> returns \<open>NULL\<close>.
\<close>

theorem fgets_zero_size_returns_null:
  "fmode (pending CHR ''+'') \<noteq> CHR ''w''
   \<and> fgets (pending CHR ''+'') ((disk [])\<lparr>wsched := [Err]\<rparr>) [9, 9] 0 =
       Inr (pending CHR ''+'', disk [], [9, 9], False)"
  by (simp add: run_simps)

text \<open>
  C10, amended: for every stream that is not write-only and every \<open>size <= 0\<close>, \<open>fgets\<close>
  stores nothing in \<open>s\<close>, whatever the file holds and also at end-of-stream; its only
  effect on the stream and the descriptor is the \<open>fflush\<close> made when \<open>lastAct\<close> is
  \<open>'w'\<close>; it returns \<open>s\<close>, except that it returns \<open>NULL\<close> when that \<open>fflush\<close> fails.
\<close>

theorem fgets_nonpositive_size:
  assumes "fmode f \<noteq> CHR ''w''" and "sz \<le> 0"
  shows "fgets f d s sz =
     (if lastAct f = CHR ''w''
      then (case fflush f d of Inl e \<Rightarrow> Inl e | Inr (f1, d1, r) \<Rightarrow> Inr (f1, d1, s, r = 0))
      else Inr (f, d, s, True))"
  using assms by (auto simp: fgets_def fgets_loop.simps split: sum.splits)

theorem fgets_nonpositive_size_witness:
  "fmode (opened CHR ''r'') \<noteq> CHR ''w'' \<and> (0 :: int) \<le> 0
   \<and> fgets (opened CHR ''r'') (disk [104, 105]) [9, 9] 0 =
       Inr (opened CHR ''r'', disk [104, 105], [9, 9], True)"
  using fgets_nonpositive_size [of "opened CHR ''r''" 0 "disk [104, 105]" "[9, 9]"]
  by (simp add: opened_def)

end
